theory Spec2Isabelle
  imports Main "HOL-Library.AList"
begin

chapter \<open>The CSS just-in-time subsetting engine\<close>

text \<open>
  A shallow embedding of the two components that subset a stylesheet by the classes in
  use: the build tool \<open>style-jit-cli.js\<close> (segmentation of the stylesheet, the base
  patterns, the filter of the segments and of the interior of media blocks) and the
  browser runtime \<open>style-jit-runtime.js\<close> (\<open>parseCSS\<close>, \<open>injectClasses\<close>, the flush
  scheduler and \<open>init\<close>). The definitions come first, each from the source function of
  its name; the loops that the source writes inline are named after what they loop
  over. The lemmas about them and the claims of the specification follow.
\<close>

section \<open>JavaScript string primitives used by both parsers\<close>

text \<open>
  A JavaScript string is modelled as a \<^typ>\<open>string\<close>, one \<^typ>\<open>char\<close> per code unit
  (code units below 256). Positions are natural numbers; every position the two
  parsers compute is non-negative.
\<close>

definition is_space :: "char \<Rightarrow> bool" where
  \<comment> \<open>the regular expression \<open>/\s/\<close>, and the characters \<open>trim()\<close> strips\<close>
  "is_space c = (c \<in> set [CHR 0x09, CHR 0x0A, CHR 0x0B, CHR 0x0C, CHR 0x0D, CHR 0x20, CHR 0xA0])"

definition is_alpha :: "char \<Rightarrow> bool" where
  \<comment> \<open>\<open>[a-zA-Z]\<close>\<close>
  "is_alpha c = (c \<in> set ''abcdefghijklmnopqrstuvwxyzABCDEFGHIJKLMNOPQRSTUVWXYZ'')"

definition is_name_char :: "char \<Rightarrow> bool" where
  \<comment> \<open>\<open>[a-zA-Z0-9_-]\<close>\<close>
  "is_name_char c = (is_alpha c \<or> c \<in> set ''0123456789_-'')"

definition is_word_char :: "char \<Rightarrow> bool" where
  \<comment> \<open>\<open>\w\<close>, which decides the word boundary \<open>\b\<close>\<close>
  "is_word_char c = (is_alpha c \<or> c \<in> set ''0123456789_'')"

definition startsWith :: "string \<Rightarrow> string \<Rightarrow> nat \<Rightarrow> bool" where
  \<comment> \<open>\<open>s.startsWith(pat, pos)\<close>\<close>
  "startsWith s pat pos = (take (length pat) (drop pos s) = pat)"

definition indexOf :: "string \<Rightarrow> string \<Rightarrow> nat \<Rightarrow> nat option" where
  \<comment> \<open>\<open>s.indexOf(pat, from)\<close>; \<open>None\<close> is the result \<open>-1\<close>\<close>
  "indexOf s pat from = List.find (\<lambda>k. startsWith s pat k) [min from (length s) ..< Suc (length s)]"

definition slice :: "string \<Rightarrow> nat \<Rightarrow> nat \<Rightarrow> string" where
  \<comment> \<open>\<open>s.slice(a, b)\<close> for non-negative \<open>a\<close> and \<open>b\<close>\<close>
  "slice s a b = take (b - a) (drop a s)"

definition trim :: "string \<Rightarrow> string" where
  "trim s = rev (dropWhile is_space (rev (dropWhile is_space s)))"

definition join :: "string \<Rightarrow> string list \<Rightarrow> string" where
  \<comment> \<open>\<open>xs.join(sep)\<close>\<close>
  "join sep xs = (case xs of [] \<Rightarrow> [] | y # ys \<Rightarrow> y @ concat (map (\<lambda>z. sep @ z) ys))"

function skipSpace :: "string \<Rightarrow> nat \<Rightarrow> nat" where
  \<comment> \<open>\<open>while (pos < len && /\s/.test(s[pos])) pos++;\<close>\<close>
  "skipSpace s pos = (if pos < length s \<and> is_space (s ! pos) then skipSpace s (Suc pos) else pos)"
  by pat_completeness auto
termination
  by (relation "measure (\<lambda>(s, pos). length s - pos)") auto

declare skipSpace.simps [simp del]

function extractBlock_loop :: "string \<Rightarrow> int \<Rightarrow> nat \<Rightarrow> nat" where
  \<comment> \<open>the loop of \<open>extractBlock\<close>, from depth \<open>depth\<close> at position \<open>j\<close>\<close>
  "extractBlock_loop s depth j =
     (if j < length s then
        (if s ! j = CHR ''{'' then extractBlock_loop s (depth + 1) (Suc j)
         else if s ! j = CHR ''}'' then
           (if depth - 1 = 0 then j else extractBlock_loop s (depth - 1) (Suc j))
         else extractBlock_loop s depth (Suc j))
      else j)"
  by pat_completeness auto
termination
  by (relation "measure (\<lambda>(s, depth, j). length s - j)") auto

declare extractBlock_loop.simps [simp del]

definition extractBlock :: "string \<Rightarrow> nat \<Rightarrow> nat" where
  \<comment> \<open>position of the brace closing the block opened at \<open>startIdx\<close>, or the length\<close>
  "extractBlock s startIdx = extractBlock_loop s 0 startIdx"

section \<open>The build tool: segmentation\<close>

datatype segment =
    Comment (raw: string)
  | Import (raw: string)
  | AtRule (raw: string)
  | Rule (selector: string) (raw: string)

partial_function (option) segment_loop :: "string \<Rightarrow> nat \<Rightarrow> segment list \<Rightarrow> segment list option" where
  "segment_loop fullCSS pos0 segments =
     (if pos0 < length fullCSS then
        (let pos = skipSpace fullCSS pos0 in
         if pos \<ge> length fullCSS then Some segments
         else if startsWith fullCSS ''/*'' pos then
           (let endPos = (case indexOf fullCSS ''*/'' (pos + 2) of
                            None \<Rightarrow> length fullCSS | Some e \<Rightarrow> e + 2)
            in segment_loop fullCSS endPos (segments @ [Comment (slice fullCSS pos endPos)]))
         else if startsWith fullCSS ''@import'' pos then
           (let endPos = (case indexOf fullCSS '';'' pos of
                            None \<Rightarrow> length fullCSS | Some e \<Rightarrow> e + 1)
            in segment_loop fullCSS endPos (segments @ [Import (slice fullCSS pos endPos)]))
         else if fullCSS ! pos = CHR ''@'' then
           (case indexOf fullCSS ''{'' pos of
              None \<Rightarrow> segment_loop fullCSS (length fullCSS) segments
            | Some braceStart \<Rightarrow>
                (let braceEnd = extractBlock fullCSS braceStart in
                 segment_loop fullCSS (braceEnd + 1)
                   (segments @ [AtRule (slice fullCSS pos (braceEnd + 1))])))
         else
           (case indexOf fullCSS ''{'' pos of
              None \<Rightarrow> segment_loop fullCSS (length fullCSS) segments
            | Some braceStart \<Rightarrow>
                (let sel = trim (slice fullCSS pos braceStart);
                     braceEnd = extractBlock fullCSS braceStart in
                 segment_loop fullCSS (braceEnd + 1)
                   (segments @ [Rule sel (slice fullCSS pos (braceEnd + 1))]))))
      else Some segments)"

declare segment_loop.simps [code]

definition segmentCSS :: "string \<Rightarrow> segment list option" where
  \<comment> \<open>the segments \<open>build\<close> computes from the stylesheet text\<close>
  "segmentCSS fullCSS = segment_loop fullCSS 0 []"

section \<open>The build tool: classification and filtering\<close>

text \<open>
  Each regular expression of \<open>baseElementSelectors\<close> is one predicate on the selector:
  \<open>/^x$/\<close> is equality with \<open>x\<close>, \<open>/^x/\<close> is "starts with \<open>x\<close>"; the four patterns with
  \<open>\s\<close> or a character class are written out. The list keeps the order of the source.
\<close>

definition re_exact :: "string \<Rightarrow> string \<Rightarrow> bool" where
  "re_exact lit sel = (sel = lit)"

definition re_prefix :: "string \<Rightarrow> string \<Rightarrow> bool" where
  "re_prefix lit sel = startsWith sel lit 0"

definition re_a_button :: "string \<Rightarrow> bool" where
  \<comment> \<open>\<open>/^a,\s*button$/\<close>\<close>
  "re_a_button sel = (startsWith sel ''a,'' 0 \<and> dropWhile is_space (drop 2 sel) = ''button'')"

definition re_heading :: "string \<Rightarrow> bool" where
  \<comment> \<open>\<open>/^h[1-6]$/\<close>\<close>
  "re_heading sel = (case sel of [a, b] \<Rightarrow> a = CHR ''h'' \<and> b \<in> set ''123456'' | _ \<Rightarrow> False)"

definition re_spaced :: "string \<Rightarrow> string \<Rightarrow> string \<Rightarrow> bool" where
  \<comment> \<open>\<open>/^x\s+y/\<close>, for \<open>y\<close> that does not start with white space\<close>
  "re_spaced x y sel =
     (startsWith sel x 0 \<and>
      (let rest = drop (length x) sel in
       rest \<noteq> [] \<and> is_space (hd rest) \<and> startsWith (dropWhile is_space rest) y 0))"

definition baseElementSelectors :: "(string \<Rightarrow> bool) list" where
  "baseElementSelectors =
     [re_exact ''*'', re_exact ''html'', re_exact ''body'', re_exact ''div'',
      re_exact ''section'', re_exact ''main'',
      re_exact ''p'', re_exact ''hr'', re_exact ''form'', re_prefix ''input'',
      re_exact ''select'', re_exact ''textarea'',
      re_exact ''label'', re_exact ''fieldset'', re_exact ''option'', re_exact ''table'',
      re_exact ''thead'',
      re_exact ''tbody'', re_exact ''tr'', re_exact ''th'', re_exact ''td'', re_exact ''a'',
      re_exact ''button'',
      re_a_button, re_exact ''i'', re_exact ''img'', re_prefix ''progress'',
      re_prefix ''::-webkit'',
      re_prefix ''::'', re_prefix '':root'', re_heading, re_exact ''ul'', re_exact ''ol'',
      re_exact ''li'',
      re_exact ''span'', re_exact ''nav'', re_spaced ''p'' ''i'', re_prefix ''i.material'',
      re_spaced ''td'' ''img'',
      re_prefix ''tr:nth'', re_prefix ''#pagination'', re_prefix ''input[type'',
      re_prefix ''textarea:focus'']"

definition isBaseElement :: "string \<Rightarrow> bool" where
  "isBaseElement sel = list_ex (\<lambda>re. re sel) baseElementSelectors"

function matchAll_class :: "string \<Rightarrow> string list" where
  \<comment> \<open>all matches of \<open>/\.([a-zA-Z][a-zA-Z0-9_-]*)/g\<close>, left to right, each with its dot\<close>
  "matchAll_class [] = []"
| "matchAll_class (c # cs) =
     (if c = CHR ''.'' \<and> cs \<noteq> [] \<and> is_alpha (hd cs)
      then (c # takeWhile is_name_char cs) # matchAll_class (dropWhile is_name_char cs)
      else matchAll_class cs)"
  by pat_completeness auto
termination
  by (relation "measure length") (auto simp: less_Suc_eq_le length_dropWhile_le)

definition match_class :: "string \<Rightarrow> string list option" where
  \<comment> \<open>\<open>selector.match(/\.([a-zA-Z][a-zA-Z0-9_-]*)/g)\<close>; \<open>None\<close> is \<open>null\<close>\<close>
  "match_class sel = (case matchAll_class sel of [] \<Rightarrow> None | m # ms \<Rightarrow> Some (m # ms))"

definition selectorUsesClass :: "string \<Rightarrow> string set \<Rightarrow> bool" where
  "selectorUsesClass sel usedClasses =
     (case match_class sel of
        None \<Rightarrow> False
      | Some classNames \<Rightarrow> list_ex (\<lambda>cn. drop 1 cn \<in> usedClasses) classNames)"

fun shouldKeepSegment :: "string set \<Rightarrow> segment \<Rightarrow> bool" where
  "shouldKeepSegment usedClasses (Import r) = True"
| "shouldKeepSegment usedClasses (Comment r) = True"
| "shouldKeepSegment usedClasses (AtRule r) =
     (if startsWith r ''@media'' 0 \<or> startsWith r ''@keyframe'' 0 then True else True)"
| "shouldKeepSegment usedClasses (Rule sel r) =
     (if isBaseElement sel then True else selectorUsesClass sel usedClasses)"

text \<open>
  The loop of \<open>filterMediaBlock\<close> over the text between the outer braces. Its inlined
  brace-matching loop is the loop of \<open>extractBlock\<close>, leaving by \<open>break\<close> where that one
  returns.
\<close>

partial_function (option) filterMedia_loop ::
  "string set \<Rightarrow> string \<Rightarrow> nat \<Rightarrow> string list \<Rightarrow> string list option" where
  "filterMedia_loop usedClasses inner p0 innerRules =
     (if p0 < length inner then
        (let p = skipSpace inner p0 in
         if p \<ge> length inner then Some innerRules
         else if startsWith inner ''/*'' p then
           filterMedia_loop usedClasses inner
             (case indexOf inner ''*/'' (p + 2) of None \<Rightarrow> length inner | Some e \<Rightarrow> e + 2)
             innerRules
         else
           (case indexOf inner ''{'' p of
              None \<Rightarrow> filterMedia_loop usedClasses inner (length inner) innerRules
            | Some braceStart \<Rightarrow>
                (let sel = trim (slice inner p braceStart);
                     q = extractBlock inner braceStart;
                     ruleRaw = slice inner p (q + 1)
                 in filterMedia_loop usedClasses inner (q + 1)
                      (if isBaseElement sel \<or> selectorUsesClass sel usedClasses
                       then innerRules @ [ruleRaw] else innerRules))))
      else Some innerRules)"

declare filterMedia_loop.simps [code]

definition nl :: string where
  "nl = [CHR 0x0A]"

definition filterMediaBlock :: "string set \<Rightarrow> string \<Rightarrow> string option option" where
  \<comment> \<open>\<open>Some None\<close> is the result \<open>null\<close>; the outer \<open>None\<close> is a loop that does not end\<close>
  "filterMediaBlock usedClasses r =
     (case indexOf r ''{'' 0 of
        None \<Rightarrow> Some (Some r)
      | Some firstBrace \<Rightarrow>
          (let header = slice r 0 (firstBrace + 1);
               inner = slice r (firstBrace + 1) (length r - 1)
           in case filterMedia_loop usedClasses inner 0 [] of
                None \<Rightarrow> None
              | Some innerRules \<Rightarrow>
                  if length innerRules = 0 then Some None
                  else Some (Some (header @ nl @ join nl innerRules @ nl @ ''}''))))"

record counters =
  keptRules :: "string list"
  keptCount :: nat
  skippedCount :: nat

fun filter_segments :: "string set \<Rightarrow> segment list \<Rightarrow> counters \<Rightarrow> counters option" where
  \<comment> \<open>\<open>for (const seg of segments)\<close> in \<open>build\<close>; a string is truthy when it is not empty\<close>
  "filter_segments usedClasses [] st = Some st"
| "filter_segments usedClasses (seg # segs) st =
     (if is_AtRule seg \<and> startsWith (raw seg) ''@media'' 0 then
        (case filterMediaBlock usedClasses (raw seg) of
           None \<Rightarrow> None
         | Some filtered \<Rightarrow>
             (if filtered \<noteq> None \<and> filtered \<noteq> Some [] then
                filter_segments usedClasses segs
                  (st\<lparr>keptRules := keptRules st @ [the filtered], keptCount := keptCount st + 1\<rparr>)
              else
                filter_segments usedClasses segs (st\<lparr>skippedCount := skippedCount st + 1\<rparr>)))
      else if shouldKeepSegment usedClasses seg then
        filter_segments usedClasses segs
          (st\<lparr>keptRules := keptRules st @ [raw seg], keptCount := keptCount st + 1\<rparr>)
      else
        filter_segments usedClasses segs (st\<lparr>skippedCount := skippedCount st + 1\<rparr>))"

definition build :: "string set \<Rightarrow> string \<Rightarrow> (string \<times> counters) option" where
  \<comment> \<open>the text \<open>build\<close> writes to the output file, with the counts it reports\<close>
  "build usedClasses fullCSS =
     (case segmentCSS fullCSS of
        None \<Rightarrow> None
      | Some segments \<Rightarrow>
          (case filter_segments usedClasses segments
                  \<lparr>keptRules = [], keptCount = 0, skippedCount = 0\<rparr> of
             None \<Rightarrow> None
           | Some st \<Rightarrow> Some (join (nl @ nl) (keptRules st), st)))"

section \<open>The browser runtime: parsing\<close>

text \<open>
  \<open>parseCSS\<close> keeps its class map in an object literal \<open>{}\<close>. Reading \<open>map[name]\<close>
  finds the object's own property, and otherwise a property inherited from
  \<open>Object.prototype\<close>: a function (or, for \<open>__proto__\<close>, the prototype object), which is
  truthy, has no method \<open>push\<close> and is not iterable. The model keeps the own properties
  in insertion order and names the inherited ones.
\<close>

datatype js_error = TypeError

type_synonym rule_map = "(string \<times> string list) list"

definition objectPrototypeKeys :: "string list" where
  "objectPrototypeKeys =
     [''constructor'', ''hasOwnProperty'', ''isPrototypeOf'', ''propertyIsEnumerable'',
      ''toLocaleString'', ''toString'', ''valueOf'', ''__proto__'',
      ''__defineGetter__'', ''__defineSetter__'', ''__lookupGetter__'', ''__lookupSetter__'']"

datatype property = Undefined | Inherited | Own "string list"

definition getProperty :: "rule_map \<Rightarrow> string \<Rightarrow> property" where
  \<comment> \<open>\<open>map[name]\<close>\<close>
  "getProperty m name =
     (case map_of m name of
        Some rules \<Rightarrow> Own rules
      | None \<Rightarrow> if name \<in> set objectPrototypeKeys then Inherited else Undefined)"

definition map_push :: "rule_map \<Rightarrow> string \<Rightarrow> string \<Rightarrow> js_error + rule_map" where
  \<comment> \<open>\<open>if (!map[name]) map[name] = []; map[name].push(rule);\<close>\<close>
  "map_push m name rule =
     (case getProperty m name of
        Undefined \<Rightarrow> Inr (m @ [(name, [rule])])
      | Own rules \<Rightarrow> Inr (AList.update name (rules @ [rule]) m)
      | Inherited \<Rightarrow> Inl TypeError)"

fun map_push_all :: "rule_map \<Rightarrow> string list \<Rightarrow> string \<Rightarrow> js_error + rule_map" where
  \<comment> \<open>\<open>classMatches.forEach(cn => { const name = cn.slice(1); ... })\<close>\<close>
  "map_push_all m [] rule = Inr m"
| "map_push_all m (cn # cns) rule =
     (case map_push m (drop 1 cn) rule of
        Inl e \<Rightarrow> Inl e
      | Inr m' \<Rightarrow> map_push_all m' cns rule)"

definition re_prefix_b :: "string \<Rightarrow> string \<Rightarrow> bool" where
  \<comment> \<open>\<open>/^x\b/\<close> for \<open>x\<close> ending in a word character\<close>
  "re_prefix_b lit sel =
     (startsWith sel lit 0 \<and> (length sel \<le> length lit \<or> \<not> is_word_char (sel ! length lit)))"

definition re_heading_prefix :: "string \<Rightarrow> bool" where
  \<comment> \<open>\<open>/^h[1-6]/\<close>\<close>
  "re_heading_prefix sel =
     (case sel of a # b # rest \<Rightarrow> a = CHR ''h'' \<and> b \<in> set ''123456'' | _ \<Rightarrow> False)"

definition baseSelectors :: "(string \<Rightarrow> bool) list" where
  \<comment> \<open>the alternatives of the regular expression \<open>baseSelectors\<close>, in its order\<close>
  "baseSelectors =
     [re_prefix ''*'', re_prefix ''html'', re_prefix ''body'', re_prefix ''div'',
      re_prefix ''section'', re_prefix ''main'', re_prefix_b ''p'', re_prefix ''hr'',
      re_prefix ''form'', re_prefix ''input'', re_prefix ''select'', re_prefix ''textarea'',
      re_prefix ''label'', re_prefix ''fieldset'', re_prefix ''option'', re_prefix ''table'',
      re_prefix ''thead'', re_prefix ''tbody'', re_prefix ''tr'', re_prefix ''th'',
      re_prefix ''td'', re_prefix_b ''a'', re_prefix_b ''button'', re_prefix_b ''i'',
      re_prefix ''img'', re_prefix ''progress'', re_prefix '':root'', re_heading_prefix,
      re_prefix ''ul'', re_prefix ''ol'', re_prefix ''li'', re_prefix ''nav'',
      re_prefix ''span'', re_prefix ''header'', re_prefix ''footer'', re_prefix ''@import'',
      re_prefix ''@charset'']"

definition baseSelectors_test :: "string \<Rightarrow> bool" where
  "baseSelectors_test sel = list_ex (\<lambda>re. re sel) baseSelectors"

text \<open>
  The two loops of \<open>parseCSS\<close>. A result \<open>Some (Inl e)\<close> is the exception \<open>e\<close> leaving
  the function, \<open>Some (Inr (map, base))\<close> the loop's end, \<open>None\<close> a loop that does not end.
\<close>

partial_function (option) media_loop ::
  "string \<Rightarrow> string \<Rightarrow> nat \<Rightarrow> rule_map \<Rightarrow> string list
     \<Rightarrow> (js_error + rule_map \<times> string list) option" where
  "media_loop mediaHeader mediaInner mp0 m mediaBaseRules =
     (if mp0 < length mediaInner then
        (let mp = skipSpace mediaInner mp0 in
         if mp \<ge> length mediaInner then Some (Inr (m, mediaBaseRules))
         else if startsWith mediaInner ''/*'' mp then
           media_loop mediaHeader mediaInner
             (case indexOf mediaInner ''*/'' (mp + 2) of
                None \<Rightarrow> length mediaInner | Some e \<Rightarrow> e + 2)
             m mediaBaseRules
         else
           (case indexOf mediaInner ''{'' mp of
              None \<Rightarrow> media_loop mediaHeader mediaInner (length mediaInner) m mediaBaseRules
            | Some braceStart \<Rightarrow>
                (let sel = trim (slice mediaInner mp braceStart);
                     q = extractBlock mediaInner braceStart;
                     ruleRaw = slice mediaInner mp (q + 1)
                 in case match_class sel of
                      None \<Rightarrow>
                        media_loop mediaHeader mediaInner (q + 1) m
                          (if baseSelectors_test sel then mediaBaseRules @ [ruleRaw]
                           else mediaBaseRules)
                    | Some classMatches \<Rightarrow>
                        (case map_push_all m classMatches
                                (mediaHeader @ nl @ ruleRaw @ nl @ ''}'') of
                           Inl e \<Rightarrow> Some (Inl e)
                         | Inr m' \<Rightarrow>
                             media_loop mediaHeader mediaInner (q + 1) m' mediaBaseRules))))
      else Some (Inr (m, mediaBaseRules)))"

declare media_loop.simps [code]

partial_function (option) parse_loop ::
  "bool \<Rightarrow> string \<Rightarrow> nat \<Rightarrow> rule_map \<Rightarrow> string list
     \<Rightarrow> (js_error + rule_map \<times> string list) option" where
  "parse_loop keepBase cssText pos0 m base =
     (if pos0 < length cssText then
        (let pos = skipSpace cssText pos0 in
         if pos \<ge> length cssText then Some (Inr (m, base))
         else if startsWith cssText ''/*'' pos then
           parse_loop keepBase cssText
             (case indexOf cssText ''*/'' (pos + 2) of
                None \<Rightarrow> length cssText | Some e \<Rightarrow> e + 2)
             m base
         else if startsWith cssText ''@import'' pos \<or> startsWith cssText ''@charset'' pos then
           (let endPos = (case indexOf cssText '';'' pos of
                            None \<Rightarrow> length cssText | Some e \<Rightarrow> e + 1)
            in parse_loop keepBase cssText endPos m (base @ [slice cssText pos endPos]))
         else if startsWith cssText ''@keyframe'' pos then
           (case indexOf cssText ''{'' pos of
              None \<Rightarrow> parse_loop keepBase cssText (length cssText) m base
            | Some braceStart \<Rightarrow>
                (let braceEnd = extractBlock cssText braceStart in
                 parse_loop keepBase cssText (braceEnd + 1) m
                   (base @ [slice cssText pos (braceEnd + 1)])))
         else if startsWith cssText ''@media'' pos then
           (case indexOf cssText ''{'' pos of
              None \<Rightarrow> parse_loop keepBase cssText (length cssText) m base
            | Some firstBrace \<Rightarrow>
                (let lastBrace = extractBlock cssText firstBrace;
                     mediaHeader = slice cssText pos (firstBrace + 1);
                     mediaInner = slice cssText (firstBrace + 1) lastBrace
                 in case media_loop mediaHeader mediaInner 0 m [] of
                      None \<Rightarrow> None
                    | Some (Inl e) \<Rightarrow> Some (Inl e)
                    | Some (Inr (m', mediaBaseRules)) \<Rightarrow>
                        parse_loop keepBase cssText (lastBrace + 1) m'
                          (if length mediaBaseRules > 0
                           then base @ [mediaHeader @ nl @ join nl mediaBaseRules @ nl @ ''}'']
                           else base)))
         else
           (case indexOf cssText ''{'' pos of
              None \<Rightarrow> parse_loop keepBase cssText (length cssText) m base
            | Some braceStart \<Rightarrow>
                (let sel = trim (slice cssText pos braceStart);
                     braceEnd = extractBlock cssText braceStart;
                     r = slice cssText pos (braceEnd + 1)
                 in case match_class sel of
                      None \<Rightarrow>
                        parse_loop keepBase cssText (braceEnd + 1) m
                          (if keepBase then base @ [r] else base)
                    | Some classMatches \<Rightarrow>
                        (case map_push_all m classMatches r of
                           Inl e \<Rightarrow> Some (Inl e)
                         | Inr m' \<Rightarrow> parse_loop keepBase cssText (braceEnd + 1) m' base))))
      else Some (Inr (m, base)))"

declare parse_loop.simps [code]

definition parseCSS :: "bool \<Rightarrow> string \<Rightarrow> (js_error + rule_map \<times> string) option" where
  \<comment> \<open>\<open>parseCSS(cssText)\<close> under \<open>config.keepBase\<close>: the map and the joined base text\<close>
  "parseCSS keepBase cssText =
     (case parse_loop keepBase cssText 0 [] [] of
        None \<Rightarrow> None
      | Some (Inl e) \<Rightarrow> Some (Inl e)
      | Some (Inr (m, base)) \<Rightarrow> Some (Inr (m, join nl base)))"

section \<open>The browser runtime: state, injection and scheduling\<close>

text \<open>
  The module's variables form the state. A \<open>Set\<close> of strings is a list without
  duplicates in insertion order. \<open>styleTag\<close> holds the \<open>textContent\<close> of the style
  element once it has been created. The further fields record what the runtime does
  to its browser: the handles of the animation-frame callbacks that are registered and
  have not run (with the last handle given out), whether the mutation observer has been
  started, the number of calls of \<open>fetch\<close> and the messages sent to \<open>console.error\<close>.
  Debug output is left out.
\<close>

record runtime =
  fullCSS :: "string option"
  cssRules :: "rule_map option"
  baseRules :: string
  injectedClasses :: "string list"
  styleTag :: "string option"
  pendingClasses :: "string list"
  flushTimer :: "nat option"
  frameCallbacks :: "nat list"
  lastHandle :: nat
  observing :: bool
  fetches :: nat
  consoleErrors :: "string list"

record config =
  watch :: bool
  keepBase :: bool

definition initial :: runtime where
  "initial =
     \<lparr>fullCSS = None, cssRules = None, baseRules = [], injectedClasses = [],
      styleTag = None, pendingClasses = [], flushTimer = None, frameCallbacks = [],
      lastHandle = 0, observing = False, fetches = 0, consoleErrors = []\<rparr>"

definition set_add :: "string list \<Rightarrow> string \<Rightarrow> string list" where
  \<comment> \<open>\<open>set.add(x)\<close>\<close>
  "set_add xs x = (if x \<in> set xs then xs else xs @ [x])"

definition getStyleTag :: "runtime \<Rightarrow> runtime" where
  "getStyleTag st = (case styleTag st of None \<Rightarrow> st\<lparr>styleTag := Some []\<rparr> | Some t \<Rightarrow> st)"

text \<open>
  The \<open>forEach\<close> of \<open>injectClasses\<close>: the set of injected classes it leaves, with the
  new rules or the exception that ended it.
\<close>

fun inject_loop ::
  "rule_map \<Rightarrow> string list \<Rightarrow> string list \<Rightarrow> string list
     \<Rightarrow> string list \<times> (js_error + string list)" where
  "inject_loop rules [] injected newRules = (injected, Inr newRules)"
| "inject_loop rules (cls # classes) injected newRules =
     (if cls \<in> set injected then inject_loop rules classes injected newRules
      else
        (let injected' = set_add injected cls in
         case getProperty rules cls of
           Undefined \<Rightarrow> inject_loop rules classes injected' newRules
         | Own rs \<Rightarrow> inject_loop rules classes injected' (newRules @ rs)
         | Inherited \<Rightarrow> (injected', Inl TypeError)))"

definition injectClasses :: "runtime \<Rightarrow> string list \<Rightarrow> runtime \<times> js_error option" where
  \<comment> \<open>the state \<open>injectClasses(classes)\<close> leaves, and the exception leaving it, if any\<close>
  "injectClasses st classes =
     (case cssRules st of
        None \<Rightarrow> (st, None)
      | Some rules \<Rightarrow>
          (let st1 = getStyleTag st;
               (injected', res) = inject_loop rules classes (injectedClasses st1) []
           in case res of
                Inl e \<Rightarrow> (st1\<lparr>injectedClasses := injected'\<rparr>, Some e)
              | Inr newRules \<Rightarrow>
                  (if length newRules > 0
                   then st1\<lparr>injectedClasses := injected',
                             styleTag := map_option (\<lambda>t. t @ nl @ join nl newRules) (styleTag st1)\<rparr>
                   else st1\<lparr>injectedClasses := injected'\<rparr>,
                   None)))"

definition flushPending :: "runtime \<Rightarrow> runtime \<times> js_error option" where
  "flushPending st =
     (let st1 = st\<lparr>flushTimer := None\<rparr> in
      if length (pendingClasses st1) > 0 then
        (case injectClasses st1 (pendingClasses st1) of
           (st2, Some e) \<Rightarrow> (st2, Some e)
         | (st2, None) \<Rightarrow> (st2\<lparr>pendingClasses := []\<rparr>, None))
      else (st1, None))"

definition scheduleInject :: "runtime \<Rightarrow> string list \<Rightarrow> runtime" where
  \<comment> \<open>\<open>!flushTimer\<close> holds for \<open>null\<close> and for the number 0\<close>
  "scheduleInject st classes =
     (let st1 = st\<lparr>pendingClasses := foldl set_add (pendingClasses st) classes\<rparr> in
      if flushTimer st1 = None \<or> flushTimer st1 = Some 0 then
        (let handle = Suc (lastHandle st1) in
         st1\<lparr>flushTimer := Some handle,
             frameCallbacks := frameCallbacks st1 @ [handle],
             lastHandle := handle\<rparr>)
      else st1)"

definition observer_callback :: "runtime \<Rightarrow> string list \<Rightarrow> runtime" where
  \<comment> \<open>the callback of \<open>watchDOM\<close>, given the classes it collects from the mutations\<close>
  "observer_callback st newClasses =
     (if length newClasses > 0 then scheduleInject st newClasses else st)"

definition animation_frame :: "runtime \<Rightarrow> runtime \<times> js_error option" where
  \<comment> \<open>the browser runs the oldest registered frame callback, which is \<open>flushPending\<close>\<close>
  "animation_frame st =
     (case frameCallbacks st of
        [] \<Rightarrow> (st, None)
      | h # hs \<Rightarrow> flushPending (st\<lparr>frameCallbacks := hs\<rparr>))"

datatype inject_arg = One string | Many "string list"

definition api_inject :: "runtime \<Rightarrow> inject_arg \<Rightarrow> runtime \<times> js_error option" where
  \<comment> \<open>\<open>StyleJIT.inject(classes)\<close>\<close>
  "api_inject st arg = injectClasses st (case arg of One c \<Rightarrow> [c] | Many cs \<Rightarrow> cs)"

definition api_rescan :: "runtime \<Rightarrow> string list \<Rightarrow> runtime \<times> js_error option" where
  \<comment> \<open>\<open>StyleJIT.rescan()\<close>, given the classes \<open>scanDOM(document.body)\<close> finds\<close>
  "api_rescan st domClasses = injectClasses st domClasses"

definition getInjected :: "runtime \<Rightarrow> string list" where
  "getInjected st = injectedClasses st"

definition getAvailable :: "runtime \<Rightarrow> string list" where
  "getAvailable st = (case cssRules st of None \<Rightarrow> [] | Some m \<Rightarrow> map fst m)"

datatype fetch_result = Rejected | Response bool "string option"
  \<comment> \<open>\<open>fetch\<close> rejects, or resolves to a response with its \<open>ok\<close> flag and the result of
      \<open>text()\<close>, \<open>None\<close> when that rejects\<close>

definition init ::
  "config \<Rightarrow> fetch_result \<Rightarrow> string list \<Rightarrow> runtime \<Rightarrow> (runtime \<times> js_error option) option" where
  \<comment> \<open>\<open>init()\<close>, given what its one \<open>fetch\<close> gives and the classes \<open>scanDOM\<close> finds;
      an exception in the result is the rejection of the promise \<open>init\<close> returns\<close>
  "init cfg fetched domClasses st =
     (let st0 = st\<lparr>fetches := fetches st + 1\<rparr> in
      case (case fetched of
              Rejected \<Rightarrow> None
            | Response ok body \<Rightarrow> if \<not> ok then None else body) of
        None \<Rightarrow>
          Some (st0\<lparr>consoleErrors := consoleErrors st0 @ [''[StyleJIT] Error loading CSS:'']\<rparr>,
                None)
      | Some text \<Rightarrow>
          (let st1 = st0\<lparr>fullCSS := Some text\<rparr> in
           case parseCSS (keepBase cfg) text of
             None \<Rightarrow> None
           | Some (Inl e) \<Rightarrow> Some (st1, Some e)
           | Some (Inr (m, base)) \<Rightarrow>
               (let st2 = st1\<lparr>cssRules := Some m, baseRules := base\<rparr>;
                    st3 = (getStyleTag st2)\<lparr>styleTag := Some (baseRules st2)\<rparr>
                in case injectClasses st3 domClasses of
                     (st4, Some e) \<Rightarrow> Some (st4, Some e)
                   | (st4, None) \<Rightarrow>
                       Some (if watch cfg then st4\<lparr>observing := True\<rparr> else st4, None))))"

datatype operation =
    Inject inject_arg
  | Rescan "string list"
  | Mutation "string list"
  | Frame

fun step :: "runtime \<Rightarrow> operation \<Rightarrow> runtime" where
  \<comment> \<open>the state one operation leaves behind, whether it returns or throws\<close>
  "step st (Inject arg) = fst (api_inject st arg)"
| "step st (Rescan domClasses) = fst (api_rescan st domClasses)"
| "step st (Mutation newClasses) = observer_callback st newClasses"
| "step st Frame = fst (animation_frame st)"

definition run :: "runtime \<Rightarrow> operation list \<Rightarrow> runtime" where
  "run st ops = foldl step st ops"

section \<open>Notions of the specification\<close>


text \<open>
  The class names of a selector, in the specification's words: at every dot that is
  followed by a letter starts a class token, which runs over the letters, digits,
  hyphens and underscores that follow; the name is the token without its dot.
\<close>

definition class_token_names :: "string \<Rightarrow> string list" where
  "class_token_names sel =
     map (\<lambda>i. takeWhile is_name_char (drop (Suc i) sel))
       (filter (\<lambda>i. sel ! i = CHR ''.'' \<and> Suc i < length sel \<and> is_alpha (sel ! Suc i))
          [0 ..< length sel])"





text \<open>
  At most one flush callback is registered, and one is registered exactly when
  \<open>flushTimer\<close> holds its handle.
\<close>

definition one_callback :: "runtime \<Rightarrow> bool" where
  "one_callback st =
     (length (frameCallbacks st) \<le> 1
      \<and> (frameCallbacks st = [] \<longleftrightarrow> (flushTimer st = None \<or> flushTimer st = Some 0)))"

section \<open>Facts about the string primitives\<close>

lemma skipSpace_ge: "pos \<le> skipSpace s pos"
proof (induction s pos rule: skipSpace.induct)
  case (1 s pos)
  show ?case
    using 1 by (subst skipSpace.simps) (auto simp: Suc_leD)
qed


lemma skipSpace_le: "pos \<le> length s \<Longrightarrow> skipSpace s pos \<le> length s"
proof (induction s pos rule: skipSpace.induct)
  case (1 s pos)
  show ?case
    using 1 by (subst skipSpace.simps) auto
qed






lemma extractBlock_loop_ge: "j \<le> extractBlock_loop s d j"
proof (induction s d j rule: extractBlock_loop.induct)
  case (1 s depth j)
  show ?case
  proof (cases "j < length s")
    case False
    then show ?thesis by (subst extractBlock_loop.simps) simp
  next
    case True
    note lt = True
    show ?thesis
    proof (cases "s ! j = CHR ''{''")
      case True
      have "Suc j \<le> extractBlock_loop s (depth + 1) (Suc j)" using 1(1) lt True by simp
      then show ?thesis using lt True by (subst extractBlock_loop.simps) simp
    next
      case False
      note nb = False
      show ?thesis
      proof (cases "s ! j = CHR ''}''")
        case True
        show ?thesis
        proof (cases "depth - 1 = 0")
          case True
          then show ?thesis using lt nb \<open>s ! j = CHR ''}''\<close>
            by (subst extractBlock_loop.simps) simp
        next
          case False
          have "Suc j \<le> extractBlock_loop s (depth - 1) (Suc j)"
            using 1(2) lt nb True False by simp
          then show ?thesis using lt nb True False
            by (subst extractBlock_loop.simps) simp
        qed
      next
        case False
        have "Suc j \<le> extractBlock_loop s depth (Suc j)"
          using 1(3) lt nb False by simp
        then show ?thesis using lt nb False
          by (subst extractBlock_loop.simps) simp
      qed
    qed
  qed
qed

lemma indexOf_Some:
  assumes "indexOf s pat from = Some k"
  shows "min from (length s) \<le> k \<and> k \<le> length s \<and> startsWith s pat k"
proof -
  from assms
  have f: "List.find (\<lambda>k. startsWith s pat k) [min from (length s) ..< Suc (length s)] = Some k"
    by (simp only: indexOf_def)
  then obtain i where i: "i < length [min from (length s) ..< Suc (length s)]"
      "startsWith s pat ([min from (length s) ..< Suc (length s)] ! i)"
      "k = [min from (length s) ..< Suc (length s)] ! i"
    unfolding find_Some_iff by blast
  have "k \<in> set [min from (length s) ..< Suc (length s)]"
    using i(1,3) nth_mem by blast
  then show ?thesis using i(2,3) by auto
qed

lemma extractBlock_ge: "b \<le> extractBlock s b"
  by (simp add: extractBlock_def extractBlock_loop_ge)







section \<open>The segmentation loop ends and covers its input\<close>

lemma indexOf_ge: "indexOf s pat from = Some k \<Longrightarrow> from < length s \<Longrightarrow> from \<le> k"
  using indexOf_Some[of s pat "from" k] by simp

lemma measure_step: "pos < n \<Longrightarrow> pos < pos' \<Longrightarrow> n - pos' < n - (pos::nat)"
  by arith

lemma brace_progress:
  assumes "indexOf s pat p = Some b" "p < length s" "pos \<le> p"
  shows "pos < Suc (extractBlock s b)"
proof -
  have "p \<le> b" using indexOf_ge assms by blast
  moreover have "b \<le> extractBlock s b" by (rule extractBlock_ge)
  ultimately show ?thesis using assms(3) by linarith
qed

lemma comment_progress:
  assumes "indexOf s pat (Suc (Suc p)) = Some e" "pos \<le> p" "p < length s"
  shows "pos < Suc (Suc e)"
proof -
  have "min (Suc (Suc p)) (length s) \<le> e" using indexOf_Some[OF assms(1)] by blast
  then show ?thesis using assms(2,3) by (simp add: min_def split: if_splits)
qed

lemma import_progress:
  assumes "indexOf s pat p = Some e" "pos \<le> p" "p < length s"
  shows "pos < Suc e"
proof -
  have "p \<le> e" using indexOf_ge assms by blast
  then show ?thesis using assms(2) by linarith
qed

lemma segment_loop_total: "\<exists>r. segment_loop s pos acc = Some r"
proof (induction "length s - pos" arbitrary: pos acc rule: less_induct)
  case less
  show ?case
  proof (cases "pos < length s")
    case False
    then show ?thesis by (subst segment_loop.simps) simp
  next
    case True
    define p where "p = skipSpace s pos"
    have pp: "pos \<le> p" unfolding p_def by (rule skipSpace_ge)
    have IH: "\<And>pos' acc'. pos < pos' \<Longrightarrow> \<exists>r. segment_loop s pos' acc' = Some r"
      using less True measure_step by blast
    show ?thesis
    proof (cases "p < length s")
      case False
      then show ?thesis using True by (subst segment_loop.simps) (simp add: p_def[symmetric])
    next
      case pl: True
      note bs = brace_progress[OF _ pl pp] and c1 = comment_progress[OF _ pp pl]
        and c2 = import_progress[OF _ pp pl]
      show ?thesis
        using True pl
        apply (subst segment_loop.simps)
        apply (simp add: p_def[symmetric] Let_def split: option.split)
        apply (intro conjI impI allI IH)
        apply (simp_all add: bs c1 c2)
        done
    qed
  qed
qed





section \<open>Class tokens: the regular expression and the specification agree\<close>

lemma name_char_not_dot: "is_name_char c \<Longrightarrow> c \<noteq> CHR ''.''"
  by (auto simp: is_name_char_def is_alpha_def)

lemma class_token_names_Cons:
  "class_token_names (c # cs) =
     (if c = CHR ''.'' \<and> cs \<noteq> [] \<and> is_alpha (hd cs) then [takeWhile is_name_char cs] else [])
     @ class_token_names cs"
proof -
  have up: "[0 ..< length (c # cs)] = 0 # map Suc [0 ..< length cs]"
    by (simp add: upt_conv_Cons map_Suc_upt del: upt_Suc)
  have hd0: "cs \<noteq> [] \<Longrightarrow> cs ! 0 = hd cs" by (cases cs) auto
  show ?thesis
    unfolding class_token_names_def up
    by (auto simp: filter_map comp_def hd0)
qed

lemma class_token_names_Nil: "class_token_names [] = []"
  by (simp add: class_token_names_def)

lemma class_token_names_skip:
  "\<forall>x \<in> set xs. is_name_char x \<Longrightarrow> class_token_names (xs @ ys) = class_token_names ys"
proof (induction xs)
  case Nil
  then show ?case by simp
next
  case (Cons x xs)
  have "x \<noteq> CHR ''.''" using Cons.prems name_char_not_dot by simp
  then show ?case using Cons by (simp add: class_token_names_Cons)
qed

lemma matchAll_class_names: "map (drop 1) (matchAll_class sel) = class_token_names sel"
proof (induction sel rule: matchAll_class.induct)
  case 1
  show ?case by (simp add: class_token_names_Nil)
next
  case (2 c cs)
  show ?case
  proof (cases "c = CHR ''.'' \<and> cs \<noteq> [] \<and> is_alpha (hd cs)")
    case True
    have "class_token_names cs = class_token_names (takeWhile is_name_char cs @ dropWhile is_name_char cs)"
      by simp
    also have "\<dots> = class_token_names (dropWhile is_name_char cs)"
      by (rule class_token_names_skip) (auto dest: set_takeWhileD)
    finally show ?thesis using True 2(1) by (simp add: class_token_names_Cons)
  next
    case False
    then show ?thesis using 2(2) by (auto simp: class_token_names_Cons)
  qed
qed

lemma matchAll_class_set: "drop (Suc 0) ` set (matchAll_class sel) = set (class_token_names sel)"
  using matchAll_class_names[of sel, symmetric] by simp

lemma match_class_names:
  "match_class sel = (if class_token_names sel = [] then None else Some (matchAll_class sel))"
  using matchAll_class_names[of sel]
  by (cases "matchAll_class sel") (auto simp: match_class_def)

lemma selectorUsesClass_names:
  "selectorUsesClass sel used \<longleftrightarrow> set (class_token_names sel) \<inter> used \<noteq> {}"
proof -
  have eq: "set (class_token_names sel) = drop 1 ` set (matchAll_class sel)"
    using matchAll_class_names[of sel, symmetric] by (simp only: set_map)
  show ?thesis
  proof (cases "matchAll_class sel")
    case Nil
    then show ?thesis using eq by (simp add: selectorUsesClass_def match_class_def)
  next
    case (Cons m ms)
    have "selectorUsesClass sel used \<longleftrightarrow> (\<exists>cn \<in> set (matchAll_class sel). drop 1 cn \<in> used)"
      using Cons by (simp add: selectorUsesClass_def match_class_def list_ex_iff)
    also have "\<dots> \<longleftrightarrow> drop 1 ` set (matchAll_class sel) \<inter> used \<noteq> {}" by blast
    finally show ?thesis using eq by simp
  qed
qed







lemma map_push_keys:
  assumes "map_push m name r = Inr m'"
  shows "fst ` set m' = insert name (fst ` set m)"
proof (cases "getProperty m name")
  case Undefined
  then show ?thesis using assms by (auto simp: map_push_def)
next
  case Inherited
  then show ?thesis using assms by (simp add: map_push_def)
next
  case (Own rs)
  then have m': "m' = AList.update name (rs @ [r]) m" using assms by (simp add: map_push_def)
  have "map_of m name = Some rs"
    using Own by (auto simp: getProperty_def split: option.splits if_splits)
  then have "(name, rs) \<in> set m" by (rule map_of_SomeD)
  then have "name \<in> fst ` set m" by force
  then show ?thesis unfolding m' dom_update by blast
qed

lemma map_push_all_keys:
  "map_push_all m cns r = Inr m' \<Longrightarrow> fst ` set m' = fst ` set m \<union> set (map (drop 1) cns)"
proof (induction cns arbitrary: m)
  case Nil
  then show ?case by simp
next
  case (Cons cn cns)
  then obtain m1 where m1: "map_push m (drop 1 cn) r = Inr m1" "map_push_all m1 cns r = Inr m'"
    by (auto split: sum.splits)
  from Cons.IH[OF m1(2)] map_push_keys[OF m1(1)] show ?case by auto
qed

section \<open>The media filter keeps the inner rules that are base or in use\<close>





lemma filterMedia_loop_total: "\<exists>r. filterMedia_loop used inner pos acc = Some r"
proof (induction "length inner - pos" arbitrary: pos acc rule: less_induct)
  case less
  show ?case
  proof (cases "pos < length inner")
    case False
    then show ?thesis by (subst filterMedia_loop.simps) simp
  next
    case True
    define p where "p = skipSpace inner pos"
    have pp: "pos \<le> p" unfolding p_def by (rule skipSpace_ge)
    have IH: "\<And>pos' acc'. pos < pos' \<Longrightarrow> \<exists>r. filterMedia_loop used inner pos' acc' = Some r"
      using less True measure_step by blast
    show ?thesis
    proof (cases "p < length inner")
      case False
      then show ?thesis using True
        by (subst filterMedia_loop.simps) (simp add: p_def[symmetric])
    next
      case pl: True
      note bs = brace_progress[OF _ pl pp] and c1 = comment_progress[OF _ pp pl]
      show ?thesis
        using True pl
        apply (subst filterMedia_loop.simps)
        apply (simp add: p_def[symmetric] Let_def split: option.split)
        apply (intro conjI impI allI IH)
        apply (simp_all add: bs c1)
        done
    qed
  qed
qed




section \<open>Every loop of the two parsers ends\<close>

lemma media_loop_total: "\<exists>r. media_loop h inner pos m b = Some r"
proof (induction "length inner - pos" arbitrary: pos m b rule: less_induct)
  case less
  show ?case
  proof (cases "pos < length inner")
    case False
    then show ?thesis by (subst media_loop.simps) simp
  next
    case True
    define p where "p = skipSpace inner pos"
    have pp: "pos \<le> p" unfolding p_def by (rule skipSpace_ge)
    have IH: "\<And>pos' m' b'. pos < pos' \<Longrightarrow> \<exists>r. media_loop h inner pos' m' b' = Some r"
      using less True measure_step by blast
    show ?thesis
    proof (cases "p < length inner")
      case False
      then show ?thesis using True by (subst media_loop.simps) (simp add: p_def[symmetric])
    next
      case pl: True
      note bs = brace_progress[OF _ pl pp] and c1 = comment_progress[OF _ pp pl]
      show ?thesis
        using True pl
        apply (subst media_loop.simps)
        apply (simp add: p_def[symmetric] Let_def split: option.split sum.split)
        apply (intro conjI impI allI IH)
        apply (simp_all add: bs c1)
        done
    qed
  qed
qed

lemma parse_loop_result:
  "\<exists>r. parse_loop kb s pos m b = Some r
     \<and> (case r of Inl e \<Rightarrow> True | Inr (m', b') \<Rightarrow> \<exists>ext. b' = b @ ext)"
proof (induction "length s - pos" arbitrary: pos m b rule: less_induct)
  case less
  let ?P = "\<lambda>b r. case r of Inl e \<Rightarrow> True
                      | Inr (m', b') \<Rightarrow> \<exists>ext. b' = (b :: string list) @ ext"
  have mono: "?P b r" if "?P (b @ xs) r" for xs and r :: "js_error + rule_map \<times> string list"
    using that by (auto split: sum.splits)
  show ?case
  proof (cases "pos < length s")
    case False
    then show ?thesis by (subst parse_loop.simps) simp
  next
    case True
    define p where "p = skipSpace s pos"
    have pp: "pos \<le> p" unfolding p_def by (rule skipSpace_ge)
    have IH: "\<And>pos' m' b'. pos < pos' \<Longrightarrow>
                \<exists>r. parse_loop kb s pos' m' b' = Some r \<and> ?P b' r"
      using less True measure_step by blast
    show ?thesis
    proof (cases "p < length s")
      case False
      then show ?thesis using True by (subst parse_loop.simps) (simp add: p_def[symmetric])
    next
      case pl: True
      note bs = brace_progress[OF _ pl pp] and c1 = comment_progress[OF _ pp pl]
        and c2 = import_progress[OF _ pp pl]
      have last: "parse_loop kb s (length s) m' b' = Some (Inr (m', b'))" for m' b'
        by (subst parse_loop.simps) simp
      have unf: "parse_loop kb s pos m b =
        (if startsWith s ''/*'' p then
           parse_loop kb s
             (case indexOf s ''*/'' (p + 2) of None \<Rightarrow> length s | Some e \<Rightarrow> e + 2) m b
         else if startsWith s ''@import'' p \<or> startsWith s ''@charset'' p then
           (let endPos = (case indexOf s '';'' p of None \<Rightarrow> length s | Some e \<Rightarrow> e + 1)
            in parse_loop kb s endPos m (b @ [slice s p endPos]))
         else if startsWith s ''@keyframe'' p then
           (case indexOf s ''{'' p of
              None \<Rightarrow> parse_loop kb s (length s) m b
            | Some braceStart \<Rightarrow>
                (let braceEnd = extractBlock s braceStart in
                 parse_loop kb s (braceEnd + 1) m (b @ [slice s p (braceEnd + 1)])))
         else if startsWith s ''@media'' p then
           (case indexOf s ''{'' p of
              None \<Rightarrow> parse_loop kb s (length s) m b
            | Some firstBrace \<Rightarrow>
                (let lastBrace = extractBlock s firstBrace;
                     mediaHeader = slice s p (firstBrace + 1);
                     mediaInner = slice s (firstBrace + 1) lastBrace
                 in case media_loop mediaHeader mediaInner 0 m [] of
                      None \<Rightarrow> None
                    | Some (Inl e) \<Rightarrow> Some (Inl e)
                    | Some (Inr (m', mediaBaseRules)) \<Rightarrow>
                        parse_loop kb s (lastBrace + 1) m'
                          (if length mediaBaseRules > 0
                           then b @ [mediaHeader @ nl @ join nl mediaBaseRules @ nl @ ''}'']
                           else b)))
         else
           (case indexOf s ''{'' p of
              None \<Rightarrow> parse_loop kb s (length s) m b
            | Some braceStart \<Rightarrow>
                (let sel = trim (slice s p braceStart);
                     braceEnd = extractBlock s braceStart;
                     r = slice s p (braceEnd + 1)
                 in case match_class sel of
                      None \<Rightarrow>
                        parse_loop kb s (braceEnd + 1) m (if kb then b @ [r] else b)
                    | Some classMatches \<Rightarrow>
                        (case map_push_all m classMatches r of
                           Inl e \<Rightarrow> Some (Inl e)
                         | Inr m' \<Rightarrow> parse_loop kb s (braceEnd + 1) m' b))))"
        using True pl by (subst parse_loop.simps) (simp add: p_def[symmetric] Let_def)
      consider (comment) "startsWith s ''/*'' p"
        | (import) "\<not> startsWith s ''/*'' p"
            "startsWith s ''@import'' p \<or> startsWith s ''@charset'' p"
        | (nobrace) "\<not> startsWith s ''/*'' p"
            "\<not> (startsWith s ''@import'' p \<or> startsWith s ''@charset'' p)"
            "indexOf s ''{'' p = None"
        | (keyframes) x where "\<not> startsWith s ''/*'' p"
            "\<not> (startsWith s ''@import'' p \<or> startsWith s ''@charset'' p)"
            "startsWith s ''@keyframe'' p" "indexOf s ''{'' p = Some x"
        | (media) x where "\<not> startsWith s ''/*'' p"
            "\<not> (startsWith s ''@import'' p \<or> startsWith s ''@charset'' p)"
            "\<not> startsWith s ''@keyframe'' p" "startsWith s ''@media'' p"
            "indexOf s ''{'' p = Some x"
        | (rule) x where "\<not> startsWith s ''/*'' p"
            "\<not> (startsWith s ''@import'' p \<or> startsWith s ''@charset'' p)"
            "\<not> startsWith s ''@keyframe'' p" "\<not> startsWith s ''@media'' p"
            "indexOf s ''{'' p = Some x"
        by (cases "indexOf s ''{'' p") auto
      then show ?thesis
      proof cases
        case comment
        have "pos < (case indexOf s ''*/'' (p + 2) of None \<Rightarrow> length s | Some e \<Rightarrow> e + 2)"
          using c1 True by (auto split: option.split)
        from IH[OF this] show ?thesis unfolding unf using comment by simp
      next
        case import
        have "pos < (case indexOf s '';'' p of None \<Rightarrow> length s | Some e \<Rightarrow> e + 1)"
          using c2 True by (auto split: option.split)
        from IH[OF this, of m "b @ [slice s p (case indexOf s '';'' p of None \<Rightarrow> length s | Some e \<Rightarrow> e + 1)]"]
        show ?thesis unfolding unf using import mono by (auto simp: Let_def)
      next
        case nobrace
        then show ?thesis unfolding unf using last by (simp split: if_splits)
      next
        case keyframes
        have "pos < extractBlock s x + 1" using bs[OF keyframes(4)] by simp
        from IH[OF this, of m "b @ [slice s p (extractBlock s x + 1)]"]
        show ?thesis unfolding unf using keyframes mono by (auto simp: Let_def)
      next
        case media
        have lt: "pos < extractBlock s x + 1" using bs[OF media(5)] by simp
        obtain r where r: "media_loop (slice s p (x + 1)) (slice s (x + 1) (extractBlock s x)) 0 m [] = Some r"
          using media_loop_total by blast
        show ?thesis
        proof (cases r)
          case (Inl e)
          then show ?thesis unfolding unf using media r by (simp add: Let_def)
        next
          case (Inr mb)
          obtain m' mbr where mb: "mb = (m', mbr)" by (cases mb)
          from IH[OF lt, of m' "if length mbr > 0
                           then b @ [slice s p (x + 1) @ nl @ join nl mbr @ nl @ ''}'']
                           else b"]
          show ?thesis unfolding unf using media r Inr mb mono
            by (auto simp: Let_def split: if_splits)
        qed
      next
        case rule
        have lt: "pos < extractBlock s x + 1" using bs[OF rule(5)] by simp
        show ?thesis
        proof (cases "match_class (trim (slice s p x))")
          case None
          from IH[OF lt, of m "if kb then b @ [slice s p (extractBlock s x + 1)] else b"]
          show ?thesis unfolding unf using rule None mono
            by (auto simp: Let_def split: if_splits)
        next
          case (Some cns)
          show ?thesis
          proof (cases "map_push_all m cns (slice s p (extractBlock s x + 1))")
            case (Inl e)
            then show ?thesis unfolding unf using rule Some by (simp add: Let_def)
          next
            case (Inr m')
            from IH[OF lt, of m' b]
            show ?thesis unfolding unf using rule Some Inr by (simp add: Let_def)
          qed
        qed
      qed
    qed
  qed
qed

lemma parse_loop_total: "\<exists>r. parse_loop kb s pos m b = Some r"
  using parse_loop_result[of kb s pos m b] by blast



lemma parseCSS_total: "\<exists>r. parseCSS kb s = Some r"
proof -
  obtain r where "parse_loop kb s 0 [] [] = Some r" using parse_loop_total by blast
  then show ?thesis by (auto simp: parseCSS_def split: sum.split prod.split)
qed

lemma filterMediaBlock_total: "\<exists>r. filterMediaBlock used r0 = Some r"
proof (cases "indexOf r0 ''{'' 0")
  case None
  then show ?thesis by (simp add: filterMediaBlock_def)
next
  case (Some b)
  obtain rs where "filterMedia_loop used (slice r0 (b + 1) (length r0 - 1)) 0 [] = Some rs"
    using filterMedia_loop_total by blast
  then show ?thesis using Some by (simp add: filterMediaBlock_def Let_def)
qed

lemma filter_segments_total: "\<exists>r. filter_segments used segs st = Some r"
proof (induction segs arbitrary: st)
  case Nil
  then show ?case by simp
next
  case (Cons seg segs)
  obtain f where f: "filterMediaBlock used (raw seg) = Some f"
    using filterMediaBlock_total by blast
  show ?case using Cons[of "st\<lparr>skippedCount := skippedCount st + 1\<rparr>"]
      Cons[of "st\<lparr>keptRules := keptRules st @ [raw seg], keptCount := keptCount st + 1\<rparr>"]
      Cons[of "st\<lparr>keptRules := keptRules st @ [the f], keptCount := keptCount st + 1\<rparr>"] f
    by simp
qed

lemma build_total: "\<exists>out st. build used css = Some (out, st)"
proof -
  obtain segs where s: "segmentCSS css = Some segs"
    unfolding segmentCSS_def using segment_loop_total by blast
  obtain st where "filter_segments used segs \<lparr>keptRules = [], keptCount = 0, skippedCount = 0\<rparr> = Some st"
    using filter_segments_total by blast
  then show ?thesis using s by (simp add: build_def)
qed


section \<open>The branches for blocks that are kept whole\<close>









section \<open>Injection and scheduling\<close>

lemma set_set_add: "set (set_add xs x) = insert x (set xs)"
  by (auto simp: set_add_def)

lemma inject_loop_grows:
  "set injected \<subseteq> set (fst (inject_loop rules classes injected newRules))"
proof (induction classes arbitrary: injected newRules)
  case Nil
  then show ?case by simp
next
  case (Cons cls classes)
  have a: "set injected \<subseteq> set (set_add injected cls)" by (auto simp: set_set_add)
  show ?case
    using Cons[of injected newRules] Cons[of "set_add injected cls"] a
    by (auto simp: Let_def split: property.split)
qed

lemma inject_loop_adds:
  "inject_loop rules classes injected newRules = (injected', Inr newRules')
     \<Longrightarrow> set classes \<subseteq> set injected'"
proof (induction classes arbitrary: injected newRules)
  case Nil
  then show ?case by simp
next
  case (Cons cls classes)
  show ?case
  proof (cases "cls \<in> set injected")
    case True
    then have r: "inject_loop rules classes injected newRules = (injected', Inr newRules')"
      using Cons.prems by simp
    have "set injected \<subseteq> set injected'"
      using inject_loop_grows[of injected rules classes newRules] r by simp
    then show ?thesis using Cons.IH[OF r] True by auto
  next
    case False
    obtain nr where r: "inject_loop rules classes (set_add injected cls) nr = (injected', Inr newRules')"
      using Cons.prems False by (auto simp: Let_def split: property.splits)
    have "set (set_add injected cls) \<subseteq> set injected'"
      using inject_loop_grows[of "set_add injected cls" rules classes nr] r by simp
    then show ?thesis using Cons.IH[OF r] by (auto simp: set_set_add)
  qed
qed

lemma inject_loop_noop:
  "set classes \<subseteq> set injected \<Longrightarrow> inject_loop rules classes injected newRules = (injected, Inr newRules)"
  by (induction classes) auto

lemma inject_loop_skip:
  "c \<in> set injected \<Longrightarrow>
     inject_loop rules classes injected newRules
       = inject_loop rules (removeAll c classes) injected newRules"
proof (induction classes arbitrary: injected newRules)
  case Nil
  then show ?case by simp
next
  case (Cons cls classes)
  have "c \<in> set (set_add injected cls)" using Cons.prems by (simp add: set_set_add)
  then show ?case
    using Cons.IH[of injected] Cons.IH[of "set_add injected cls"] Cons.prems
    by (auto simp: Let_def split: property.split)
qed

lemma getProperty_Inherited: "getProperty rules c = Inherited \<Longrightarrow> c \<in> set objectPrototypeKeys"
  by (auto simp: getProperty_def split: option.splits if_splits)

lemma inject_loop_returns:
  "set classes \<inter> set objectPrototypeKeys = {} \<Longrightarrow>
     \<exists>newRules'. snd (inject_loop rules classes injected newRules) = Inr newRules'"
proof (induction classes arbitrary: injected newRules)
  case Nil
  then show ?case by simp
next
  case (Cons cls classes)
  have ni: "getProperty rules cls \<noteq> Inherited"
    using Cons.prems getProperty_Inherited by fastforce
  have rest: "set classes \<inter> set objectPrototypeKeys = {}" using Cons.prems by auto
  show ?case
    using Cons.IH[OF rest] ni
    by (cases "getProperty rules cls") (auto simp: Let_def)
qed

lemma injectedClasses_getStyleTag [simp]: "injectedClasses (getStyleTag st) = injectedClasses st"
  by (simp add: getStyleTag_def split: option.split)

lemma cssRules_getStyleTag [simp]: "cssRules (getStyleTag st) = cssRules st"
  by (simp add: getStyleTag_def split: option.split)

lemma getStyleTag_id: "styleTag st = Some t \<Longrightarrow> getStyleTag st = st"
  by (simp add: getStyleTag_def)

lemma styleTag_getStyleTag: "styleTag (getStyleTag st) \<noteq> None"
  by (simp add: getStyleTag_def split: option.split)

lemma injectClasses_grows:
  "set (injectedClasses st) \<subseteq> set (injectedClasses (fst (injectClasses st classes)))"
proof (cases "cssRules st")
  case None
  then show ?thesis by (simp add: injectClasses_def)
next
  case (Some rules)
  obtain inj res where r: "inject_loop rules classes (injectedClasses st) [] = (inj, res)"
    by (cases "inject_loop rules classes (injectedClasses st) []")
  have "set (injectedClasses st) \<subseteq> set inj"
    using inject_loop_grows[of "injectedClasses st" rules classes "[]"] r by simp
  then show ?thesis using Some r
    by (auto simp: injectClasses_def Let_def split: sum.split)
qed

lemma injectClasses_skip:
  "c \<in> set (injectedClasses st) \<Longrightarrow>
     injectClasses st classes = injectClasses st (removeAll c classes)"
  by (simp add: injectClasses_def Let_def inject_loop_skip[of c _ _ classes] split: option.split)

lemma injectClasses_noop:
  assumes "set classes \<subseteq> set (injectedClasses st)" "styleTag st = Some t"
  shows "injectClasses st classes = (st, None)"
  using assms
  by (simp add: injectClasses_def Let_def inject_loop_noop getStyleTag_id split: option.split)

lemma injectClasses_adds:
  assumes "cssRules st = Some rules" "injectClasses st classes = (st', None)"
  shows "set classes \<subseteq> set (injectedClasses st')" "styleTag st' \<noteq> None"
    "cssRules st' = Some rules"
proof -
  obtain inj res where r: "inject_loop rules classes (injectedClasses st) [] = (inj, res)"
    by (cases "inject_loop rules classes (injectedClasses st) []")
  obtain nr where nr: "res = Inr nr"
    using assms r by (cases res) (auto simp: injectClasses_def Let_def)
  have st': "st' = (if length nr > 0
             then (getStyleTag st)\<lparr>injectedClasses := inj,
                       styleTag := map_option (\<lambda>t. t @ nl @ join nl nr) (styleTag (getStyleTag st))\<rparr>
             else (getStyleTag st)\<lparr>injectedClasses := inj\<rparr>)"
    using assms r nr by (auto simp: injectClasses_def Let_def)
  have "set classes \<subseteq> set inj" using inject_loop_adds r nr by blast
  then show "set classes \<subseteq> set (injectedClasses st')" by (simp add: st')
  show "styleTag st' \<noteq> None" using styleTag_getStyleTag[of st] by (auto simp: st')
  show "cssRules st' = Some rules" using assms(1) by (simp add: st')
qed

lemma injectClasses_returns:
  "set classes \<inter> set objectPrototypeKeys = {} \<Longrightarrow> snd (injectClasses st classes) = None"
proof (cases "cssRules st")
  case None
  then show ?thesis by (simp add: injectClasses_def)
next
  case (Some rules)
  assume "set classes \<inter> set objectPrototypeKeys = {}"
  from inject_loop_returns[OF this, of rules "injectedClasses st" "[]"]
  obtain nr where "snd (inject_loop rules classes (injectedClasses st) []) = Inr nr" by blast
  then show ?thesis using Some
    by (cases "inject_loop rules classes (injectedClasses st) []")
       (auto simp: injectClasses_def Let_def)
qed

lemma injectedClasses_scheduleInject [simp]:
  "injectedClasses (scheduleInject st classes) = injectedClasses st"
  by (simp add: scheduleInject_def Let_def)

lemma flushPending_grows:
  "set (injectedClasses st) \<subseteq> set (injectedClasses (fst (flushPending st)))"
proof -
  obtain st2 e where r: "injectClasses (st\<lparr>flushTimer := None\<rparr>) (pendingClasses st) = (st2, e)"
    by (cases "injectClasses (st\<lparr>flushTimer := None\<rparr>) (pendingClasses st)")
  have "set (injectedClasses st) \<subseteq> set (injectedClasses st2)"
    using injectClasses_grows[of "st\<lparr>flushTimer := None\<rparr>" "pendingClasses st"] r by simp
  then show ?thesis using r
    by (auto simp: flushPending_def Let_def split: option.split)
qed

lemma step_grows: "set (injectedClasses st) \<subseteq> set (injectedClasses (step st op))"
proof (cases op)
  case (Inject arg)
  then show ?thesis using injectClasses_grows by (simp add: api_inject_def)
next
  case (Rescan domClasses)
  then show ?thesis using injectClasses_grows by (simp add: api_rescan_def)
next
  case (Mutation cs)
  then show ?thesis by (simp add: observer_callback_def)
next
  case Frame
  show ?thesis
  proof (cases "frameCallbacks st")
    case Nil
    then show ?thesis using Frame by (simp add: animation_frame_def)
  next
    case (Cons h hs)
    have "set (injectedClasses (st\<lparr>frameCallbacks := hs\<rparr>))
            \<subseteq> set (injectedClasses (fst (flushPending (st\<lparr>frameCallbacks := hs\<rparr>))))"
      by (rule flushPending_grows)
    then show ?thesis using Frame Cons by (simp add: animation_frame_def)
  qed
qed

lemma run_grows: "set (injectedClasses st) \<subseteq> set (injectedClasses (run st ops))"
proof (induction ops arbitrary: st)
  case Nil
  then show ?case by (simp add: run_def)
next
  case (Cons op ops)
  have "set (injectedClasses st) \<subseteq> set (injectedClasses (step st op))" by (rule step_grows)
  moreover have "set (injectedClasses (step st op)) \<subseteq> set (injectedClasses (run (step st op) ops))"
    by (rule Cons.IH)
  ultimately show ?case by (auto simp: run_def)
qed

lemma run_append: "run st (ops @ ops') = run (run st ops) ops'"
  by (simp add: run_def)

lemma flushPending_noop:
  assumes "set (pendingClasses st) \<subseteq> set (injectedClasses st)" "styleTag st = Some t"
  shows "styleTag (fst (flushPending st)) = Some t"
proof -
  have "injectClasses (st\<lparr>flushTimer := None\<rparr>) (pendingClasses st) = (st\<lparr>flushTimer := None\<rparr>, None)"
    by (rule injectClasses_noop[where t = t]) (use assms in auto)
  then show ?thesis using assms(2) by (simp add: flushPending_def Let_def)
qed

lemma init_fails:
  assumes "fetched = Rejected \<or> fetched = Response False body \<or> fetched = Response True None"
  shows "init cfg fetched domClasses st =
     Some (st\<lparr>fetches := fetches st + 1,
              consoleErrors := consoleErrors st @ [''[StyleJIT] Error loading CSS:'']\<rparr>, None)"
  using assms by (auto simp: init_def Let_def)

lemma injectClasses_no_rule:
  assumes "cssRules st = Some rules" "getProperty rules c = Undefined" "c \<notin> set (injectedClasses st)"
  shows "injectClasses st [c] = ((getStyleTag st)\<lparr>injectedClasses := injectedClasses st @ [c]\<rparr>, None)"
  using assms by (simp add: injectClasses_def Let_def set_add_def)

lemma initial_one_callback: "one_callback initial"
  by (simp add: one_callback_def initial_def)

lemma scheduleInject_one_callback: "one_callback st \<Longrightarrow> one_callback (scheduleInject st classes)"
  by (auto simp: one_callback_def scheduleInject_def Let_def)

lemma injectClasses_scheduler:
  "flushTimer (fst (injectClasses st classes)) = flushTimer st"
  "frameCallbacks (fst (injectClasses st classes)) = frameCallbacks st"
  "pendingClasses (fst (injectClasses st classes)) = pendingClasses st"
  by (auto simp: injectClasses_def Let_def getStyleTag_def
           split: option.split prod.split sum.split)

lemma flushPending_scheduler:
  "flushTimer (fst (flushPending st)) = None"
  "frameCallbacks (fst (flushPending st)) = frameCallbacks st"
proof -
  obtain st2 e where r: "injectClasses (st\<lparr>flushTimer := None\<rparr>) (pendingClasses st) = (st2, e)"
    by (cases "injectClasses (st\<lparr>flushTimer := None\<rparr>) (pendingClasses st)")
  have "flushTimer st2 = None" "frameCallbacks st2 = frameCallbacks st"
    using injectClasses_scheduler(1,2)[of "st\<lparr>flushTimer := None\<rparr>" "pendingClasses st"] r
    by simp_all
  then show "flushTimer (fst (flushPending st)) = None"
    "frameCallbacks (fst (flushPending st)) = frameCallbacks st"
    using r by (auto simp: flushPending_def Let_def split: option.split)
qed

lemma step_one_callback: "one_callback st \<Longrightarrow> one_callback (step st op)"
proof (cases op)
  case (Inject arg)
  assume "one_callback st"
  then show ?thesis using Inject
    by (simp add: one_callback_def api_inject_def injectClasses_scheduler)
next
  case (Rescan domClasses)
  assume "one_callback st"
  then show ?thesis using Rescan
    by (simp add: one_callback_def api_rescan_def injectClasses_scheduler)
next
  case (Mutation cs)
  assume "one_callback st"
  then show ?thesis using Mutation
    by (simp add: observer_callback_def scheduleInject_one_callback)
next
  case Frame
  assume inv: "one_callback st"
  show ?thesis
  proof (cases "frameCallbacks st")
    case Nil
    then show ?thesis using Frame inv by (simp add: animation_frame_def)
  next
    case (Cons h hs)
    then have "hs = []" using inv by (simp add: one_callback_def)
    then show ?thesis using Frame Cons
      by (simp add: animation_frame_def one_callback_def flushPending_scheduler)
  qed
qed

lemma run_one_callback: "one_callback st \<Longrightarrow> one_callback (run st ops)"
  unfolding run_def by (induction ops arbitrary: st) (auto simp: step_one_callback)

lemma schedule_while_pending:
  assumes "flushTimer st = Some h" "h \<noteq> 0"
  shows "scheduleInject st classes
           = st\<lparr>pendingClasses := foldl set_add (pendingClasses st) classes\<rparr>"
  using assms by (simp add: scheduleInject_def Let_def)

lemma flush_returns_to_idle:
  assumes "flushPending st = (st', None)"
  shows "pendingClasses st' = [] \<and> flushTimer st' = None"
proof (cases "pendingClasses st = []")
  case True
  then show ?thesis using assms by (auto simp: flushPending_def Let_def)
next
  case False
  obtain st2 e where r: "injectClasses (st\<lparr>flushTimer := None\<rparr>) (pendingClasses st) = (st2, e)"
    by (cases "injectClasses (st\<lparr>flushTimer := None\<rparr>) (pendingClasses st)")
  have "flushTimer st2 = None"
    using injectClasses_scheduler(1)[of "st\<lparr>flushTimer := None\<rparr>" "pendingClasses st"] r by simp
  then show ?thesis using assms r False
    by (auto simp: flushPending_def Let_def split: option.splits)
qed

section \<open>Claims about the build tool\<close>



lemma filter_rule_step:
  "filter_segments used [Rule sel r] st =
     Some (if shouldKeepSegment used (Rule sel r)
           then st\<lparr>keptRules := keptRules st @ [r], keptCount := keptCount st + 1\<rparr>
           else st\<lparr>skippedCount := skippedCount st + 1\<rparr>)"
  by simp

text \<open>
  C3, as stated, says of every rule whose selector contains a class token that it is kept
  if and only if one of its class names is in use. The selector \<open>i.material-icons\<close>
  refutes it: it contains a class token, no class is in use, and the rule is kept, since
  the selector matches the base pattern \<open>/^i\.material/\<close>.
\<close>

theorem base_rule_with_unused_class_is_kept:
  "class_token_names ''i.material-icons'' = [''material-icons'']
   \<and> set (class_token_names ''i.material-icons'') \<inter> {} = {}
   \<and> shouldKeepSegment {} (Rule ''i.material-icons'' ''i.material-icons{font-size:24px}'')
   \<and> build {} ''i.material-icons{font-size:24px}''
       = Some (''i.material-icons{font-size:24px}'',
               \<lparr>keptRules = [''i.material-icons{font-size:24px}''],
                keptCount = 1, skippedCount = 0\<rparr>)"
proof -
  have "class_token_names ''i.material-icons'' = [''material-icons'']" by code_simp
  moreover have "shouldKeepSegment {} (Rule ''i.material-icons'' ''i.material-icons{font-size:24px}'')"
    by code_simp
  moreover have "build {} ''i.material-icons{font-size:24px}''
       = Some (''i.material-icons{font-size:24px}'',
               \<lparr>keptRules = [''i.material-icons{font-size:24px}''],
                keptCount = 1, skippedCount = 0\<rparr>)"
    by code_simp
  ultimately show ?thesis by simp
qed

text \<open>
  C3, amended: a top-level rule whose selector matches a base pattern is always kept; a
  rule whose selector matches no base pattern and contains at least one class token is
  kept if and only if one of its class names is in use; a rule with no class token and no
  base match is dropped; a kept rule is appended to the output and counted as kept, a
  dropped one is counted as skipped. For the stylesheet
  \<open>:root{--x:1} .a{color:red} .b{color:blue} div{margin:0}\<close> and the used classes
  \<open>{a}\<close> the output is the \<open>:root\<close> block, the \<open>.a\<close> rule and the \<open>div\<close> rule, and the
  \<open>.b\<close> rule is skipped.
\<close>

theorem retention_policy:
  "(isBaseElement sel \<longrightarrow> shouldKeepSegment used (Rule sel r))
   \<and> (\<not> isBaseElement sel \<and> class_token_names sel \<noteq> [] \<longrightarrow>
        (shouldKeepSegment used (Rule sel r) \<longleftrightarrow> set (class_token_names sel) \<inter> used \<noteq> {}))
   \<and> (\<not> isBaseElement sel \<and> class_token_names sel = [] \<longrightarrow>
        \<not> shouldKeepSegment used (Rule sel r))
   \<and> filter_segments used [Rule sel r] st =
       Some (if shouldKeepSegment used (Rule sel r)
             then st\<lparr>keptRules := keptRules st @ [r], keptCount := keptCount st + 1\<rparr>
             else st\<lparr>skippedCount := skippedCount st + 1\<rparr>)
   \<and> build {''a''} '':root{--x:1} .a{color:red} .b{color:blue} div{margin:0}''
       = Some ('':root{--x:1}'' @ nl @ nl @ ''.a{color:red}'' @ nl @ nl @ ''div{margin:0}'',
               \<lparr>keptRules = ['':root{--x:1}'', ''.a{color:red}'', ''div{margin:0}''],
                keptCount = 3, skippedCount = 1\<rparr>)"
proof -
  have ex: "build {''a''} '':root{--x:1} .a{color:red} .b{color:blue} div{margin:0}''
       = Some ('':root{--x:1}'' @ nl @ nl @ ''.a{color:red}'' @ nl @ nl @ ''div{margin:0}'',
               \<lparr>keptRules = ['':root{--x:1}'', ''.a{color:red}'', ''div{margin:0}''],
                keptCount = 3, skippedCount = 1\<rparr>)"
    by code_simp
  have "\<not> isBaseElement sel \<Longrightarrow>
          shouldKeepSegment used (Rule sel r) \<longleftrightarrow> set (class_token_names sel) \<inter> used \<noteq> {}"
    by (simp add: selectorUsesClass_names)
  then show ?thesis using ex filter_rule_step[of used sel r st] by auto
qed

text \<open>
  The retention policy of C3 at a base selector, a used class, an unused class and a
  selector that is neither.
\<close>

theorem retention_policy_witness:
  "isBaseElement ''div'' \<and> shouldKeepSegment {''a''} (Rule ''div'' ''div{margin:0}'')
   \<and> \<not> isBaseElement ''.a'' \<and> class_token_names ''.a'' \<noteq> []
   \<and> shouldKeepSegment {''a''} (Rule ''.a'' ''.a{color:red}'')
   \<and> set (class_token_names ''.a'') \<inter> {''a''} \<noteq> {}
   \<and> \<not> isBaseElement ''.b'' \<and> class_token_names ''.b'' \<noteq> []
   \<and> \<not> shouldKeepSegment {''a''} (Rule ''.b'' ''.b{color:blue}'')
   \<and> set (class_token_names ''.b'') \<inter> {''a''} = {}
   \<and> \<not> isBaseElement ''article'' \<and> class_token_names ''article'' = []
   \<and> \<not> shouldKeepSegment {''a''} (Rule ''article'' ''article{margin:0}'')"
proof -
  have b: "isBaseElement ''div''" "\<not> isBaseElement ''.a''" "\<not> isBaseElement ''.b''"
    "\<not> isBaseElement ''article''"
    by code_simp+
  have n: "class_token_names ''.a'' = [''a'']" "class_token_names ''.b'' = [''b'']"
    "class_token_names ''article'' = []"
    by code_simp+
  show ?thesis
    using retention_policy[of "''div''" "{''a''}" "''div{margin:0}''"]
      retention_policy[of "''.a''" "{''a''}" "''.a{color:red}''"]
      retention_policy[of "''.b''" "{''a''}" "''.b{color:blue}''"]
      retention_policy[of "''article''" "{''a''}" "''article{margin:0}''"]
      b n
    by simp
qed

text \<open>
  C6: for every selector that contains a class token, the class names the classifier
  extracts (the matches of the regular expression, each without its dot) are, as a set,
  the names of the selector's class tokens, compared case-sensitively; the build tool
  keeps a class rule when one of these names is in use, and the runtime files a class
  rule under exactly these names.
\<close>

theorem class_extraction:
  "(class_token_names sel \<noteq> [] \<longrightarrow>
      (\<exists>cns. match_class sel = Some cns \<and> set (map (drop 1) cns) = set (class_token_names sel)))
   \<and> (selectorUsesClass sel used \<longleftrightarrow> set (class_token_names sel) \<inter> used \<noteq> {})
   \<and> (match_class sel = Some cns \<and> map_push_all m cns r = Inr m' \<longrightarrow>
        fst ` set m' = fst ` set m \<union> set (class_token_names sel))"
proof -
  have "match_class sel = Some cns \<Longrightarrow> map_push_all m cns r = Inr m' \<Longrightarrow>
        fst ` set m' = fst ` set m \<union> set (class_token_names sel)"
  proof -
    assume a: "match_class sel = Some cns" "map_push_all m cns r = Inr m'"
    from a(1) have "cns = matchAll_class sel"
      by (auto simp: match_class_names split: if_splits)
    then have "set (map (drop 1) cns) = set (class_token_names sel)"
      by (simp add: matchAll_class_set)
    then show ?thesis using map_push_all_keys[OF a(2)] by simp
  qed
  moreover have "class_token_names sel \<noteq> [] \<Longrightarrow>
      (\<exists>cns. match_class sel = Some cns \<and> set (map (drop 1) cns) = set (class_token_names sel))"
    by (simp add: match_class_names matchAll_class_set)
  ultimately show ?thesis using selectorUsesClass_names by blast
qed

text \<open>
  C6 at a selector with a repeated class and two classes that differ in case only.
\<close>

theorem class_extraction_witness:
  "class_token_names ''a.btn.btn-lg:hover .Btn .btn'' \<noteq> []
   \<and> match_class ''a.btn.btn-lg:hover .Btn .btn'' = Some [''.btn'', ''.btn-lg'', ''.Btn'', ''.btn'']
   \<and> set (class_token_names ''a.btn.btn-lg:hover .Btn .btn'') = {''btn'', ''btn-lg'', ''Btn''}
   \<and> selectorUsesClass ''a.btn.btn-lg:hover .Btn .btn'' {''btn-lg''}
   \<and> \<not> selectorUsesClass ''a.btn.btn-lg:hover .Btn .btn'' {''BTN''}
   \<and> map_push_all [] [''.btn'', ''.btn-lg'', ''.Btn'', ''.btn''] ''r''
        = Inr [(''btn'', [''r'', ''r'']), (''btn-lg'', [''r'']), (''Btn'', [''r''])]"
proof -
  have e: "match_class ''a.btn.btn-lg:hover .Btn .btn'' = Some [''.btn'', ''.btn-lg'', ''.Btn'', ''.btn'']"
    "class_token_names ''a.btn.btn-lg:hover .Btn .btn'' = [''btn'', ''btn-lg'', ''Btn'', ''btn'']"
    "map_push_all [] [''.btn'', ''.btn-lg'', ''.Btn'', ''.btn''] ''r''
        = Inr [(''btn'', [''r'', ''r'']), (''btn-lg'', [''r'']), (''Btn'', [''r''])]"
    by code_simp+
  show ?thesis
    using class_extraction[of "''a.btn.btn-lg:hover .Btn .btn''" "{''btn-lg''}"
        "[''.btn'', ''.btn-lg'', ''.Btn'', ''.btn'']" "[]" "''r''"
        "[(''btn'', [''r'', ''r'']), (''btn-lg'', [''r'']), (''Btn'', [''r''])]"]
      class_extraction[of "''a.btn.btn-lg:hover .Btn .btn''" "{''BTN''}"]
      e
    by auto
qed






section \<open>Claims about the runtime\<close>

text \<open>
  C5 says that both parsers end on every input and return, without looping or throwing.
  Both end on every input (\<open>segmentCSS_total\<close>, \<open>build_total\<close>, \<open>parseCSS_total\<close>), and
  the build tool has nothing that throws. The runtime's \<open>parseCSS\<close> throws a
  \<open>TypeError\<close> on a class rule whose class has the name of a property that its map
  inherits from \<open>Object.prototype\<close>: \<open>map[name]\<close> is then truthy and has no \<open>push\<close>. It
  does so on well-formed input, on a block with a missing closing brace, and inside a
  media block.
\<close>

theorem parseCSS_throws_on_prototype_class:
  "parseCSS True ''.constructor{color:red}'' = Some (Inl TypeError)
   \<and> parseCSS True ''.toString{color:red'' = Some (Inl TypeError)
   \<and> parseCSS False ''@media print{a.valueOf{color:red}}'' = Some (Inl TypeError)"
  by code_simp

text \<open>
  C2: over every sequence of injections, rescans, observed mutations and frames the set
  of injected classes only grows: a class in it after some operations is in it after
  any further ones. A class that is already injected adds nothing to a later call:
  \<open>injectClasses\<close>, through which \<open>inject\<close>, \<open>rescan\<close> and the flush all go, does the same
  with and without it, and a call or a flush all of whose classes are injected leaves
  the text of the style element as it is.
\<close>

theorem injected_classes_only_grow:
  "set (injectedClasses (run st ops)) \<subseteq> set (injectedClasses (run st (ops @ ops')))
   \<and> (c \<in> set (injectedClasses st) \<longrightarrow>
        injectClasses st classes = injectClasses st (removeAll c classes)
        \<and> api_inject st (Many classes) = api_inject st (Many (removeAll c classes))
        \<and> api_rescan st classes = api_rescan st (removeAll c classes))
   \<and> (set classes \<subseteq> set (injectedClasses st) \<and> styleTag st = Some t \<longrightarrow>
        injectClasses st classes = (st, None))
   \<and> (set (pendingClasses st) \<subseteq> set (injectedClasses st) \<and> styleTag st = Some t \<longrightarrow>
        styleTag (fst (flushPending st)) = Some t)"
proof (intro conjI impI)
  show "set (injectedClasses (run st ops)) \<subseteq> set (injectedClasses (run st (ops @ ops')))"
    unfolding run_append by (rule run_grows)
next
  assume c: "c \<in> set (injectedClasses st)"
  then show "injectClasses st classes = injectClasses st (removeAll c classes)"
    by (rule injectClasses_skip)
  then show "api_inject st (Many classes) = api_inject st (Many (removeAll c classes))"
    by (simp add: api_inject_def)
  show "api_rescan st classes = api_rescan st (removeAll c classes)"
    using injectClasses_skip[OF c] by (simp add: api_rescan_def)
next
  assume "set classes \<subseteq> set (injectedClasses st) \<and> styleTag st = Some t"
  then show "injectClasses st classes = (st, None)" using injectClasses_noop by blast
next
  assume "set (pendingClasses st) \<subseteq> set (injectedClasses st) \<and> styleTag st = Some t"
  then show "styleTag (fst (flushPending st)) = Some t" using flushPending_noop by blast
qed

text \<open>
  C2 in a state where \<open>foo\<close> is injected: injecting \<open>foo\<close> and \<open>bar\<close> appends the rule of
  \<open>bar\<close> only, and injecting or flushing \<open>foo\<close> again changes nothing.
\<close>

theorem injected_classes_only_grow_witness:
  "''foo'' \<in> set (injectedClasses
      (initial\<lparr>cssRules := Some [(''foo'', [''.foo{color:green}'']), (''bar'', [''.bar{x:y}''])],
               injectedClasses := [''foo''], styleTag := Some ''.foo{color:green}'',
               pendingClasses := [''foo'']\<rparr>))
   \<and> injectClasses
        (initial\<lparr>cssRules := Some [(''foo'', [''.foo{color:green}'']), (''bar'', [''.bar{x:y}''])],
                 injectedClasses := [''foo''], styleTag := Some ''.foo{color:green}'',
                 pendingClasses := [''foo'']\<rparr>) [''foo'', ''bar'']
       = injectClasses
        (initial\<lparr>cssRules := Some [(''foo'', [''.foo{color:green}'']), (''bar'', [''.bar{x:y}''])],
                 injectedClasses := [''foo''], styleTag := Some ''.foo{color:green}'',
                 pendingClasses := [''foo'']\<rparr>) [''bar'']
   \<and> styleTag (fst (injectClasses
        (initial\<lparr>cssRules := Some [(''foo'', [''.foo{color:green}'']), (''bar'', [''.bar{x:y}''])],
                 injectedClasses := [''foo''], styleTag := Some ''.foo{color:green}'',
                 pendingClasses := [''foo'']\<rparr>) [''foo'', ''bar'']))
       = Some (''.foo{color:green}'' @ nl @ ''.bar{x:y}'')
   \<and> injectClasses
        (initial\<lparr>cssRules := Some [(''foo'', [''.foo{color:green}'']), (''bar'', [''.bar{x:y}''])],
                 injectedClasses := [''foo''], styleTag := Some ''.foo{color:green}'',
                 pendingClasses := [''foo'']\<rparr>) [''foo'']
       = (initial\<lparr>cssRules := Some [(''foo'', [''.foo{color:green}'']), (''bar'', [''.bar{x:y}''])],
                 injectedClasses := [''foo''], styleTag := Some ''.foo{color:green}'',
                 pendingClasses := [''foo'']\<rparr>, None)
   \<and> styleTag (fst (flushPending
        (initial\<lparr>cssRules := Some [(''foo'', [''.foo{color:green}'']), (''bar'', [''.bar{x:y}''])],
                 injectedClasses := [''foo''], styleTag := Some ''.foo{color:green}'',
                 pendingClasses := [''foo'']\<rparr>)))
       = Some ''.foo{color:green}''"
proof -
  define S where "S = initial\<lparr>cssRules := Some [(''foo'', [''.foo{color:green}'']), (''bar'', [''.bar{x:y}''])],
                 injectedClasses := [''foo''], styleTag := Some ''.foo{color:green}'',
                 pendingClasses := [''foo'']\<rparr>"
  have m: "''foo'' \<in> set (injectedClasses S)" by (simp add: S_def)
  have sub: "set [''foo''] \<subseteq> set (injectedClasses S) \<and> styleTag S = Some ''.foo{color:green}''"
    by (simp add: S_def)
  have subp: "set (pendingClasses S) \<subseteq> set (injectedClasses S) \<and> styleTag S = Some ''.foo{color:green}''"
    by (simp add: S_def)
  note T = injected_classes_only_grow[of S "[]" "[]" "''foo''" "[''foo'', ''bar'']" "''.foo{color:green}''"]
  note T2 = injected_classes_only_grow[of S "[]" "[]" "''foo''" "[''foo'']" "''.foo{color:green}''"]
  have w1: "injectClasses S [''foo'', ''bar''] = injectClasses S [''bar'']"
    using T[THEN conjunct2, THEN conjunct1, THEN mp, OF m, THEN conjunct1] by simp
  have e: "styleTag (fst (injectClasses S [''bar''])) = Some (''.foo{color:green}'' @ nl @ ''.bar{x:y}'')"
    unfolding S_def by code_simp
  have w2: "styleTag (fst (injectClasses S [''foo'', ''bar''])) = Some (''.foo{color:green}'' @ nl @ ''.bar{x:y}'')"
    using w1 e by simp
  note w3 = T2[THEN conjunct2, THEN conjunct2, THEN conjunct1, THEN mp, OF sub]
  note w4 = T2[THEN conjunct2, THEN conjunct2, THEN conjunct2, THEN mp, OF subp]
  show ?thesis
    using m w1 w2 w3 w4 unfolding S_def by (intro conjI)
qed

text \<open>
  C8: when the fetch of the stylesheet is rejected, or its response is not a success (or
  the text of the response cannot be read), \<open>init\<close> returns without an exception after
  one call of \<open>fetch\<close> and one message to \<open>console.error\<close>: the style element, the
  parsed rules, the injected classes, the observer and the frame callbacks are as
  before, and where no stylesheet was parsed before, every later injection does nothing.
\<close>

theorem init_aborts_on_fetch_failure:
  "(fetched = Rejected \<or> fetched = Response False body \<or> fetched = Response True None) \<longrightarrow>
     (\<exists>st'. init cfg fetched domClasses st = Some (st', None)
        \<and> st' = st\<lparr>fetches := fetches st + 1,
                     consoleErrors := consoleErrors st @ [''[StyleJIT] Error loading CSS:'']\<rparr>
        \<and> styleTag st' = styleTag st \<and> baseRules st' = baseRules st
        \<and> cssRules st' = cssRules st \<and> injectedClasses st' = injectedClasses st
        \<and> observing st' = observing st \<and> frameCallbacks st' = frameCallbacks st
        \<and> fetches st' = fetches st + 1
        \<and> consoleErrors st' = consoleErrors st @ [''[StyleJIT] Error loading CSS:'']
        \<and> (cssRules st = None \<longrightarrow> injectClasses st' classes = (st', None)))"
proof
  assume a: "fetched = Rejected \<or> fetched = Response False body \<or> fetched = Response True None"
  show "\<exists>st'. init cfg fetched domClasses st = Some (st', None)
        \<and> st' = st\<lparr>fetches := fetches st + 1,
                     consoleErrors := consoleErrors st @ [''[StyleJIT] Error loading CSS:'']\<rparr>
        \<and> styleTag st' = styleTag st \<and> baseRules st' = baseRules st
        \<and> cssRules st' = cssRules st \<and> injectedClasses st' = injectedClasses st
        \<and> observing st' = observing st \<and> frameCallbacks st' = frameCallbacks st
        \<and> fetches st' = fetches st + 1
        \<and> consoleErrors st' = consoleErrors st @ [''[StyleJIT] Error loading CSS:'']
        \<and> (cssRules st = None \<longrightarrow> injectClasses st' classes = (st', None))"
    unfolding init_fails[OF a] by (simp add: injectClasses_def)
qed

text \<open>
  C8 at a response that is not a success and at a rejected fetch, from the initial state:
  no style element, no observer, and an injection that does nothing.
\<close>

theorem init_aborts_on_fetch_failure_witness:
  "init \<lparr>watch = True, keepBase = True\<rparr> (Response False (Some ''.foo{color:green}'')) [''foo''] initial
     = Some (initial\<lparr>fetches := 1, consoleErrors := [''[StyleJIT] Error loading CSS:'']\<rparr>, None)
   \<and> init \<lparr>watch = True, keepBase = True\<rparr> Rejected [''foo''] initial
     = Some (initial\<lparr>fetches := 1, consoleErrors := [''[StyleJIT] Error loading CSS:'']\<rparr>, None)
   \<and> styleTag (initial\<lparr>fetches := 1, consoleErrors := [''[StyleJIT] Error loading CSS:'']\<rparr>) = None
   \<and> \<not> observing (initial\<lparr>fetches := 1, consoleErrors := [''[StyleJIT] Error loading CSS:'']\<rparr>)
   \<and> injectClasses (initial\<lparr>fetches := 1, consoleErrors := [''[StyleJIT] Error loading CSS:'']\<rparr>)
        [''foo'']
       = (initial\<lparr>fetches := 1, consoleErrors := [''[StyleJIT] Error loading CSS:'']\<rparr>, None)"
  using init_aborts_on_fetch_failure[of "Response False (Some ''.foo{color:green}'')"
      "Some ''.foo{color:green}''" "\<lparr>watch = True, keepBase = True\<rparr>" "[''foo'']" initial "[''foo'']"]
    init_aborts_on_fetch_failure[of Rejected
      "Some ''.foo{color:green}''" "\<lparr>watch = True, keepBase = True\<rparr>" "[''foo'']" initial "[''foo'']"]
  by (auto simp: initial_def)

text \<open>
  C9 says that a flush empties the set of pending classes and returns the scheduler to
  idle. At most one flush callback is registered at any time (\<open>initial_one_callback\<close>,
  \<open>run_one_callback\<close>),
  scheduling while one is registered registers no second one (\<open>schedule_while_pending\<close>),
  and a flush that returns leaves no pending class (\<open>flush_returns_to_idle\<close>). But a
  flush of a class that has the name of a property inherited from \<open>Object.prototype\<close>
  throws in \<open>injectClasses\<close>, before \<open>pendingClasses.clear()\<close>: after the stylesheet
  \<open>.a{b:c}\<close> is loaded, an element of class \<open>constructor\<close> appears and the frame
  callback runs, the class is still pending and no flush is registered.
\<close>

theorem flush_throws_and_keeps_pending:
  "init \<lparr>watch = True, keepBase = True\<rparr> (Response True (Some ''.a{b:c}'')) [] initial
     = Some (initial\<lparr>fullCSS := Some ''.a{b:c}'', cssRules := Some [(''a'', [''.a{b:c}''])],
                     styleTag := Some [], observing := True, fetches := 1\<rparr>, None)
   \<and> observer_callback
        (initial\<lparr>fullCSS := Some ''.a{b:c}'', cssRules := Some [(''a'', [''.a{b:c}''])],
                 styleTag := Some [], observing := True, fetches := 1\<rparr>)
        [''constructor'']
     = initial\<lparr>fullCSS := Some ''.a{b:c}'', cssRules := Some [(''a'', [''.a{b:c}''])],
               styleTag := Some [], observing := True, fetches := 1,
               pendingClasses := [''constructor''], flushTimer := Some 1,
               frameCallbacks := [1], lastHandle := 1\<rparr>
   \<and> animation_frame
        (initial\<lparr>fullCSS := Some ''.a{b:c}'', cssRules := Some [(''a'', [''.a{b:c}''])],
                 styleTag := Some [], observing := True, fetches := 1,
                 pendingClasses := [''constructor''], flushTimer := Some 1,
                 frameCallbacks := [1], lastHandle := 1\<rparr>)
     = (initial\<lparr>fullCSS := Some ''.a{b:c}'', cssRules := Some [(''a'', [''.a{b:c}''])],
                 styleTag := Some [], observing := True, fetches := 1,
                 injectedClasses := [''constructor''],
                 pendingClasses := [''constructor''], flushTimer := None,
                 frameCallbacks := [], lastHandle := 1\<rparr>,
        Some TypeError)"
proof -
  have p: "parseCSS True ''.a{b:c}'' = Some (Inr ([(''a'', [''.a{b:c}''])], []))"
    by code_simp
  have "init \<lparr>watch = True, keepBase = True\<rparr> (Response True (Some ''.a{b:c}'')) [] initial
     = Some (initial\<lparr>fullCSS := Some ''.a{b:c}'', cssRules := Some [(''a'', [''.a{b:c}''])],
                     styleTag := Some [], observing := True, fetches := 1\<rparr>, None)"
    by (simp add: init_def p injectClasses_def initial_def getStyleTag_def Let_def)
  moreover have "observer_callback
        (initial\<lparr>fullCSS := Some ''.a{b:c}'', cssRules := Some [(''a'', [''.a{b:c}''])],
                 styleTag := Some [], observing := True, fetches := 1\<rparr>)
        [''constructor'']
     = initial\<lparr>fullCSS := Some ''.a{b:c}'', cssRules := Some [(''a'', [''.a{b:c}''])],
               styleTag := Some [], observing := True, fetches := 1,
               pendingClasses := [''constructor''], flushTimer := Some 1,
               frameCallbacks := [1], lastHandle := 1\<rparr>"
    by (simp add: observer_callback_def scheduleInject_def initial_def set_add_def Let_def)
  moreover have "animation_frame
        (initial\<lparr>fullCSS := Some ''.a{b:c}'', cssRules := Some [(''a'', [''.a{b:c}''])],
                 styleTag := Some [], observing := True, fetches := 1,
                 pendingClasses := [''constructor''], flushTimer := Some 1,
                 frameCallbacks := [1], lastHandle := 1\<rparr>)
     = (initial\<lparr>fullCSS := Some ''.a{b:c}'', cssRules := Some [(''a'', [''.a{b:c}''])],
                 styleTag := Some [], observing := True, fetches := 1,
                 injectedClasses := [''constructor''],
                 pendingClasses := [''constructor''], flushTimer := None,
                 frameCallbacks := [], lastHandle := 1\<rparr>,
        Some TypeError)"
    by (simp add: animation_frame_def flushPending_def injectClasses_def initial_def
        getStyleTag_def set_add_def getProperty_def objectPrototypeKeys_def Let_def)
  ultimately show ?thesis by (intro conjI)
qed

text \<open>
  C10, as stated, says of every class name passed to \<open>inject\<close> that it is added to the
  set of injected classes. Before a stylesheet has been parsed \<open>injectClasses\<close> returns
  at once: \<open>inject('foo')\<close> in the initial state adds nothing.
\<close>

theorem inject_before_parse_adds_nothing:
  "api_inject initial (One ''foo'') = (initial, None)
   \<and> ''foo'' \<notin> set (getInjected (fst (api_inject initial (One ''foo''))))"
  by (simp add: api_inject_def injectClasses_def initial_def getInjected_def)

text \<open>
  C10, amended: once a stylesheet has been parsed, after every call of the injection
  path (\<open>inject\<close>, \<open>rescan\<close> and the flush all call \<open>injectClasses\<close>) that returns, every
  class passed to it is in the set of injected classes, and so in the result of
  \<open>getInjected()\<close>, and the same request again changes nothing. A class for which the
  map has no rule is added and no text is appended for it. A call returns when none of
  its classes has the name of a property inherited from \<open>Object.prototype\<close>.
\<close>

theorem injected_without_rule:
  "(cssRules st = Some rules \<and> injectClasses st classes = (st', None) \<longrightarrow>
      set classes \<subseteq> set (getInjected st') \<and> injectClasses st' classes = (st', None))
   \<and> (cssRules st = Some rules \<and> getProperty rules c = Undefined
        \<and> c \<notin> set (injectedClasses st) \<longrightarrow>
        injectClasses st [c]
          = ((getStyleTag st)\<lparr>injectedClasses := injectedClasses st @ [c]\<rparr>, None))
   \<and> (set classes \<inter> set objectPrototypeKeys = {} \<longrightarrow> snd (injectClasses st classes) = None)
   \<and> api_inject st (Many classes) = injectClasses st classes
   \<and> api_inject st (One c) = injectClasses st [c]
   \<and> api_rescan st classes = injectClasses st classes
   \<and> (pendingClasses st \<noteq> [] \<longrightarrow>
        fst (flushPending st)
          = (case injectClasses (st\<lparr>flushTimer := None\<rparr>) (pendingClasses st) of
               (st2, Some e) \<Rightarrow> st2 | (st2, None) \<Rightarrow> st2\<lparr>pendingClasses := []\<rparr>))"
proof (intro conjI impI)
  assume a: "cssRules st = Some rules \<and> injectClasses st classes = (st', None)"
  then have f: "set classes \<subseteq> set (injectedClasses st')" "styleTag st' \<noteq> None"
    using injectClasses_adds by blast+
  show "set classes \<subseteq> set (getInjected st')" using f(1) by (simp add: getInjected_def)
  obtain t where "styleTag st' = Some t" using f(2) by blast
  then show "injectClasses st' classes = (st', None)" using injectClasses_noop f(1) by blast
next
  assume "cssRules st = Some rules \<and> getProperty rules c = Undefined
        \<and> c \<notin> set (injectedClasses st)"
  then show "injectClasses st [c]
          = ((getStyleTag st)\<lparr>injectedClasses := injectedClasses st @ [c]\<rparr>, None)"
    using injectClasses_no_rule by blast
next
  assume "set classes \<inter> set objectPrototypeKeys = {}"
  then show "snd (injectClasses st classes) = None" by (rule injectClasses_returns)
next
  show "api_inject st (Many classes) = injectClasses st classes" by (simp add: api_inject_def)
  show "api_inject st (One c) = injectClasses st [c]" by (simp add: api_inject_def)
  show "api_rescan st classes = injectClasses st classes" by (simp add: api_rescan_def)
next
  assume "pendingClasses st \<noteq> []"
  then show "fst (flushPending st)
          = (case injectClasses (st\<lparr>flushTimer := None\<rparr>) (pendingClasses st) of
               (st2, Some e) \<Rightarrow> st2 | (st2, None) \<Rightarrow> st2\<lparr>pendingClasses := []\<rparr>)"
    by (auto simp: flushPending_def Let_def split: prod.split option.split)
qed

text \<open>
  C10 at the class \<open>baz\<close>, for which the stylesheet has no rule: it is injected, the text
  of the style element is as before, and injecting it again changes nothing.
\<close>

theorem injected_without_rule_witness:
  "cssRules (initial\<lparr>cssRules := Some [(''foo'', [''.foo{color:green}''])],
                    injectedClasses := [''foo''], styleTag := Some ''.foo{color:green}''\<rparr>)
     = Some [(''foo'', [''.foo{color:green}''])]
   \<and> getProperty [(''foo'', [''.foo{color:green}''])] ''baz'' = Undefined
   \<and> injectClasses (initial\<lparr>cssRules := Some [(''foo'', [''.foo{color:green}''])],
                    injectedClasses := [''foo''], styleTag := Some ''.foo{color:green}''\<rparr>) [''baz'']
     = (initial\<lparr>cssRules := Some [(''foo'', [''.foo{color:green}''])],
                    injectedClasses := [''foo'', ''baz''], styleTag := Some ''.foo{color:green}''\<rparr>,
        None)
   \<and> set [''baz''] \<subseteq> set (getInjected
         (initial\<lparr>cssRules := Some [(''foo'', [''.foo{color:green}''])],
                    injectedClasses := [''foo'', ''baz''], styleTag := Some ''.foo{color:green}''\<rparr>))
   \<and> injectClasses (initial\<lparr>cssRules := Some [(''foo'', [''.foo{color:green}''])],
                    injectedClasses := [''foo'', ''baz''], styleTag := Some ''.foo{color:green}''\<rparr>)
         [''baz'']
     = (initial\<lparr>cssRules := Some [(''foo'', [''.foo{color:green}''])],
                    injectedClasses := [''foo'', ''baz''], styleTag := Some ''.foo{color:green}''\<rparr>,
        None)
   \<and> set [''baz''] \<inter> set objectPrototypeKeys = {}
   \<and> snd (injectClasses (initial\<lparr>cssRules := Some [(''foo'', [''.foo{color:green}''])],
                    injectedClasses := [''foo''], styleTag := Some ''.foo{color:green}''\<rparr>) [''baz''])
     = None"
proof -
  define S where "S = initial\<lparr>cssRules := Some [(''foo'', [''.foo{color:green}''])],
                    injectedClasses := [''foo''], styleTag := Some ''.foo{color:green}''\<rparr>"
  define S' where "S' = initial\<lparr>cssRules := Some [(''foo'', [''.foo{color:green}''])],
                    injectedClasses := [''foo'', ''baz''], styleTag := Some ''.foo{color:green}''\<rparr>"
  have h1: "cssRules S = Some [(''foo'', [''.foo{color:green}''])]" by (simp add: S_def)
  have h2: "getProperty [(''foo'', [''.foo{color:green}''])] ''baz'' = Undefined" by code_simp
  have h3: "''baz'' \<notin> set (injectedClasses S)" by (simp add: S_def)
  have h4: "set [''baz''] \<inter> set objectPrototypeKeys = {}" by code_simp
  note T = injected_without_rule[of S "[(''foo'', [''.foo{color:green}''])]" "[''baz'']" S' "''baz''"]
  have w1: "injectClasses S [''baz''] = (S', None)"
    using T[THEN conjunct2, THEN conjunct1, THEN mp, OF conjI[OF h1 conjI[OF h2 h3]]]
    by (simp add: S_def S'_def getStyleTag_def initial_def)
  note w2 = T[THEN conjunct1, THEN mp, OF conjI[OF h1 w1]]
  note w3 = T[THEN conjunct2, THEN conjunct2, THEN conjunct1, THEN mp, OF h4]
  show ?thesis
    using h1 h2 w1 w2 w3 h4 unfolding S_def S'_def by (intro conjI) blast+
qed

end
